theory Spec2Isabelle
  imports Complex_Main "HOL-Library.AList" "HOL-Library.Multiset"
    "HOL-Library.Char_ord" "HOL-Library.List_Lexorder" "HOL-Library.Product_Lexorder"
begin

section \<open>Twitter internal migration: place-name resolution, home location, migration flows\<close>

text \<open>
  The development follows the notebook \<^verbatim>\<open>internal_migration.ipynb\<close> cell by cell.
  Python values are modelled as follows.
  \<^item> A \<^verbatim>\<open>dict\<close> is an association list with distinct keys in insertion order;
    \<^verbatim>\<open>d[k] = v\<close> is \<open>AList.update k v d\<close> (overwrite in place, or append),
    \<^verbatim>\<open>del d[k]\<close> is \<open>AList.delete k d\<close>, \<^verbatim>\<open>k in d\<close> and \<^verbatim>\<open>d[k]\<close> are \<open>map_of d k\<close>.
  \<^item> A \<^verbatim>\<open>set\<close> that is only tested for membership is a HOL set; a set that is iterated
    (\<^verbatim>\<open>LAD_set\<close>) is given as the list of its elements in the order the loop visits
    them. CPython does not fix that order, so every theorem is proved for every list.
  \<^item> A raised exception is a value \<open>Inl e\<close> of the type \<open>py_error + 'a\<close>.
  \<^item> A missing cell of a data frame (\<^verbatim>\<open>NaN\<close>) is \<open>None\<close>.
\<close>

subsection \<open>String splitting\<close>

text \<open>
  \<^verbatim>\<open>loc.split(' and ')\<close> and \<^verbatim>\<open>re.split(' and |, ', loc)\<close> both scan the string from the
  left, cut at the leftmost occurrence of a separator (the regular expression tries its
  alternatives in the order written) and continue behind it. \<open>match_sep\<close> finds the
  alternative that starts at the current position.
\<close>

fun match_sep :: "string list \<Rightarrow> string \<Rightarrow> string option" where
  "match_sep [] s = None"
| "match_sep (p # ps) s =
     (if p \<noteq> [] \<and> take (length p) s = p then Some p else match_sep ps s)"

fun split_aux :: "string list \<Rightarrow> string \<Rightarrow> string \<Rightarrow> string list" where
  "split_aux seps cur [] = [rev cur]"
| "split_aux seps cur (c # cs) =
     (case match_sep seps (c # cs) of
        Some p \<Rightarrow> rev cur # split_aux seps [] (drop (length p - 1) cs)
      | None \<Rightarrow> split_aux seps (c # cur) cs)"

definition str_split :: "string \<Rightarrow> string \<Rightarrow> string list" where
  "str_split sep s = split_aux [sep] [] s"

definition re_split :: "string \<Rightarrow> string list" where
  "re_split s = split_aux ['' and '', '', ''] [] s"

subsection \<open>Lookup table\<close>

type_synonym pydict = "(string \<times> string) list"

definition dict_update :: "pydict \<Rightarrow> pydict \<Rightarrow> pydict" where
  "dict_update d e = fold (\<lambda>(k, v) acc. AList.update k v acc) e d"

definition manual_lookup_dict :: pydict where
  "manual_lookup_dict =
    [(''Bristol'', ''Bristol, City of''),
     (''Dundee'', ''Dundee City''),
     (''Edinburgh'', ''City of Edinburgh''),
     (''Glasgow'', ''Glasgow City''),
     (''Kingston upon Hull'', ''Kingston upon Hull, City of''),
     (''Herefordshire'', ''Herefordshire, County of''),
     (''North East'', ''North East (England)''),
     (''North West'', ''North West (England)''),
     (''South East'', ''South East (England)''),
     (''South West'', ''South West (England)''),
     (''East Midlands'', ''East Midlands (England)''),
     (''Saint Helier'', ''Jersey''),
     (''Sale'', ''Trafford''),
     (''Huddersfield'', ''Kirklees''),
     (''West Bromwich'', ''Sandwell''),
     (''Ashton-under-Lyne'', ''Tameside'')]"

text \<open>
  The hierarchy file \<^verbatim>\<open>lookup_df\<close>, by column. \<open>LAD21NM\<close> lists the elements of
  \<^verbatim>\<open>LAD_set\<close> in the order \<^verbatim>\<open>for loc in LAD_set\<close> visits them.
\<close>

record lookup_df =
  LAD21NM :: "string list"
  LAU121NM :: "string list"
  ITL321NM :: "string list"
  ITL221NM :: "string list"
  ITL121NM :: "string list"

definition LAD_set :: "lookup_df \<Rightarrow> string set" where
  "LAD_set df = set (LAD21NM df)"

text \<open>
  The cell computes \<^verbatim>\<open>larger_than_LAD_set\<close> three lines before it assigns \<^verbatim>\<open>LAD_set\<close>;
  the model reads it as the notebook does when the cell is run with \<^verbatim>\<open>LAD_set\<close> bound.
\<close>

definition larger_than_LAD_set :: "lookup_df \<Rightarrow> string set" where
  "larger_than_LAD_set df =
     (set (LAU121NM df) \<union> set (ITL321NM df) \<union> set (ITL221NM df) \<union> set (ITL121NM df))
       - LAD_set df"

definition splits :: "string \<Rightarrow> bool" where
  "splits loc \<longleftrightarrow> length (str_split '' and '' loc) \<ge> 2 \<and> length (re_split loc) \<ge> 2"

text \<open>
  One iteration of either splitting loop: every part of \<open>loc\<close> becomes a key with the
  value \<open>target\<close>.
\<close>

definition split_entry :: "string \<Rightarrow> string \<Rightarrow> pydict \<Rightarrow> pydict" where
  "split_entry loc target d =
     (if splits loc
      then fold (\<lambda>i acc. AList.update (re_split loc ! i) target acc)
             [0..<length (re_split loc)] d
      else d)"

definition LAD_split_dict :: "lookup_df \<Rightarrow> pydict" where
  "LAD_split_dict df = fold (\<lambda>loc acc. split_entry loc loc acc) (LAD21NM df) []"

text \<open>
  \<^verbatim>\<open>ward_dict\<close> comes from the rows \<open>(WD21NM, LAD21NM)\<close> of the ward file: a later row
  with the same ward name overwrites the earlier one.
\<close>

definition ward_dict :: "(string \<times> string) list \<Rightarrow> pydict" where
  "ward_dict rows = dict_update [] rows"

text \<open>\<^verbatim>\<open>ward_dict[loc]\<close> for a key \<open>loc\<close> of \<open>wd\<close> itself.\<close>

definition ward_split_dict :: "pydict \<Rightarrow> pydict" where
  "ward_split_dict wd = fold (\<lambda>(loc, lad) acc. split_entry loc lad acc) wd []"

definition delete_duplicates :: "lookup_df \<Rightarrow> pydict \<Rightarrow> pydict" where
  "delete_duplicates df d =
     fold (\<lambda>i acc. if i \<in> LAD_set df \<or> i \<in> larger_than_LAD_set df
                     then AList.delete i acc else acc)
       (map fst d) d"

definition lookup_dict :: "lookup_df \<Rightarrow> (string \<times> string) list \<Rightarrow> pydict" where
  "lookup_dict df rows =
     (let d1 = dict_update manual_lookup_dict (LAD_split_dict df);
          wd = ward_dict rows;
          d2 = dict_update d1 wd;
          d3 = dict_update d2 (ward_split_dict wd)
      in delete_duplicates df d3)"

subsection \<open>Name resolver\<close>

text \<open>
  \<^verbatim>\<open>match\<close> calls itself on the alias target with nothing that bounds the depth, so it
  is a partial function: \<open>None\<close> means that the recursion never reaches a \<^verbatim>\<open>return\<close>
  (CPython then raises \<^verbatim>\<open>RecursionError\<close>).
\<close>

record tables =
  t_LAD :: "string set"
  t_larger :: "string set"
  t_lookup :: pydict

definition build :: "lookup_df \<Rightarrow> (string \<times> string) list \<Rightarrow> tables" where
  "build df rows =
     \<lparr>t_LAD = LAD_set df, t_larger = larger_than_LAD_set df, t_lookup = lookup_dict df rows\<rparr>"

partial_function (option) match :: "tables \<Rightarrow> string \<Rightarrow> nat option" where
  "match T location =
     (if location \<in> t_LAD T then Some 1
      else if location \<in> t_larger T then Some 2
      else (case map_of (t_lookup T) location of
              Some target \<Rightarrow> match T target
            | None \<Rightarrow> Some 0))"

declare match.simps [code]

definition change_place_name :: "tables \<Rightarrow> string \<Rightarrow> string option" where
  "change_place_name T place =
     (case map_of (t_lookup T) place of
        Some target \<Rightarrow> Some target
      | None \<Rightarrow> (case match T place of
                   None \<Rightarrow> None
                 | Some m \<Rightarrow> if m > 0 then Some place else Some ''''))"

text \<open>The string \<open>sub\<close> occurs in the string \<open>s\<close>.\<close>

definition contains_str :: "string \<Rightarrow> string \<Rightarrow> bool" where
  "contains_str sub s \<longleftrightarrow>
     list_ex (\<lambda>n. take (length sub) (drop n s) = sub) [0..<Suc (length s)]"

text \<open>Every name of the hierarchy file, at the finest level or at a coarser one.\<close>

definition canonical :: "lookup_df \<Rightarrow> string set" where
  "canonical df =
     set (LAD21NM df) \<union> set (LAU121NM df) \<union> set (ITL321NM df) \<union> set (ITL221NM df)
       \<union> set (ITL121NM df)"


subsection \<open>Bing Maps geocoding loop\<close>

datatype py_error = ConnectionError | KeyError | IndexError | ValueError | RecursionError

definition bind_err :: "'e + 'a \<Rightarrow> ('a \<Rightarrow> 'e + 'b) \<Rightarrow> 'e + 'b" where
  "bind_err m f = (case m of Inl e \<Rightarrow> Inl e | Inr x \<Rightarrow> f x)"

text \<open>
  A row of \<^verbatim>\<open>df\<close>. The four columns \<^verbatim>\<open>bbox0..bbox3\<close> are written by one tuple
  assignment from the four numbers of the response, so a row holds either all four
  numbers or four missing cells: \<open>bbox\<close> is one optional quadruple.
\<close>

record place_row =
  location :: string
  locality :: string
  bbox :: "(real \<times> real \<times> real \<times> real) option"

text \<open>
  The part of a response that the loop reads: the status code, and in the JSON body
  \<^verbatim>\<open>resourceSets[0]\<close> with its \<^verbatim>\<open>estimatedTotal\<close> and its \<^verbatim>\<open>resources\<close>, each with an
  \<^verbatim>\<open>address\<close> (whose keys \<^verbatim>\<open>locality\<close> and \<^verbatim>\<open>formattedAddress\<close> may be absent) and a
  \<^verbatim>\<open>bbox\<close>. \<^verbatim>\<open>requests.get\<close> itself is a parameter of the model: it returns a response
  or raises.
\<close>

datatype address = Address (addr_locality: "string option") (addr_formattedAddress: "string option")

datatype resource = Resource (res_address: address) (res_bbox: "real list")

datatype response =
  Response (status_code: nat) (estimatedTotal: nat) (resources: "resource list")

type_synonym requests_get = "string \<Rightarrow> py_error + response"

definition URL :: "string \<Rightarrow> string \<Rightarrow> string" where
  "URL place API_key =
     ''http://dev.virtualearth.net/REST/v1/Locations?q='' @ place @ ''%20UK&o=json&key='' @ API_key"

definition match_call :: "tables \<Rightarrow> string \<Rightarrow> py_error + nat" where
  "match_call T s = (case match T s of None \<Rightarrow> Inl RecursionError | Some m \<Rightarrow> Inr m)"

text \<open>
  \<^verbatim>\<open>for j in range(address_num, len(tokens))\<close>: the candidate becomes each token in
  turn, and the loop stops at the first token that matches.
\<close>

fun scan_tokens :: "tables \<Rightarrow> string list \<Rightarrow> string \<Rightarrow> py_error + string" where
  "scan_tokens T [] cand = Inr cand"
| "scan_tokens T (t # ts) cand =
     bind_err (match_call T t) (\<lambda>m. if m > 0 then Inr t else scan_tokens T ts t)"

definition formatted_tokens :: "address \<Rightarrow> py_error + string list" where
  "formatted_tokens a =
     (case addr_formattedAddress a of
        None \<Rightarrow> Inl KeyError
      | Some fa \<Rightarrow> Inr (str_split '', '' fa))"

text \<open>The \<^verbatim>\<open>try\<close>/\<^verbatim>\<open>except\<close> block: the first candidate and \<^verbatim>\<open>address_num\<close>.\<close>

definition first_candidate :: "address \<Rightarrow> py_error + string \<times> nat" where
  "first_candidate a =
     (case addr_locality a of
        Some l \<Rightarrow> Inr (l, 0)
      | None \<Rightarrow>
          bind_err (formatted_tokens a)
            (\<lambda>ts. case ts of [] \<Rightarrow> Inl IndexError | t # _ \<Rightarrow> Inr (t, 1)))"

definition unpack_bbox :: "real list \<Rightarrow> py_error + (real \<times> real \<times> real \<times> real)" where
  "unpack_bbox bs = (case bs of [a, b, c, d] \<Rightarrow> Inr (a, b, c, d) | _ \<Rightarrow> Inl ValueError)"

text \<open>
  The body of the loop behind \<^verbatim>\<open>response = requests.get(URL)\<close>. \<^verbatim>\<open>special_loc_dict\<close> is
  not defined in the notebook and is a parameter.
\<close>

definition handle_response :: "tables \<Rightarrow> pydict \<Rightarrow> place_row \<Rightarrow> response \<Rightarrow> py_error + place_row" where
  "handle_response T special_loc_dict row resp =
     (if status_code resp = 200 then
        if estimatedTotal resp = 0 then Inr row
        else
          (case resources resp of
             [] \<Rightarrow> Inl IndexError
           | res # _ \<Rightarrow>
               bind_err (first_candidate (res_address res)) (\<lambda>(cand, address_num).
               bind_err (match_call T cand) (\<lambda>m0.
               bind_err (if m0 = 0
                         then bind_err (formatted_tokens (res_address res))
                                (\<lambda>ts. scan_tokens T (drop address_num ts) cand)
                         else Inr cand) (\<lambda>loc.
               bind_err (match_call T loc) (\<lambda>m.
               bind_err (if m \<noteq> 1 then bind_err (unpack_bbox (res_bbox res)) (\<lambda>b. Inr (Some b))
                         else Inr (bbox row)) (\<lambda>bb.
               Inr (row\<lparr>bbox := bb,
                        locality := (case map_of special_loc_dict loc of
                                       Some s \<Rightarrow> s | None \<Rightarrow> loc)\<rparr>)))))))
      else Inr row)"

text \<open>
  One iteration. The first component lists the URLs requested in it: none when the row is
  skipped, one otherwise.
\<close>

definition geocode_row ::
    "tables \<Rightarrow> pydict \<Rightarrow> requests_get \<Rightarrow> string \<Rightarrow> place_row \<Rightarrow> string list \<times> (py_error + place_row)" where
  "geocode_row T special_loc_dict get API_key row =
     (if locality row \<noteq> '''' then ([], Inr row)
      else ([URL (location row) API_key],
            bind_err (get (URL (location row) API_key)) (handle_response T special_loc_dict row)))"

text \<open>The loop over the rows; an exception ends it.\<close>

fun geocode_loop ::
    "tables \<Rightarrow> pydict \<Rightarrow> requests_get \<Rightarrow> string \<Rightarrow> place_row list \<Rightarrow> string list \<times> (py_error + place_row list)" where
  "geocode_loop T sp get key [] = ([], Inr [])"
| "geocode_loop T sp get key (row # rows) =
     (case geocode_row T sp get key row of
        (urls, Inl e) \<Rightarrow> (urls, Inl e)
      | (urls, Inr row') \<Rightarrow>
          (case geocode_loop T sp get key rows of
             (urls', Inl e) \<Rightarrow> (urls @ urls', Inl e)
           | (urls', Inr rows') \<Rightarrow> (urls @ urls', Inr (row' # rows'))))"

text \<open>
  The row that the cell before the loop makes of a place string:
  \<^verbatim>\<open>df['locality'] = df['location'].apply(change_place_name)\<close>.
\<close>

definition initial_row :: "tables \<Rightarrow> string \<Rightarrow> place_row option" where
  "initial_row T loc =
     map_option (\<lambda>l. \<lparr>location = loc, locality = l, bbox = None\<rparr>) (change_place_name T loc)"

subsection \<open>Bounding box intersection\<close>

text \<open>
  \<^verbatim>\<open>IOU\<close> reads a row of the four bbox columns. The geometry library is a parameter:
  \<open>intersects g b\<close> and \<open>inter_area g b\<close> stand for \<^verbatim>\<open>g.intersects(box)\<close> and
  \<^verbatim>\<open>g.intersection(box).area\<close> for the box \<open>b = (x1, y1, x2, y2)\<close>; \<open>None\<close> means that
  the call raises, which the bare \<^verbatim>\<open>except\<close> turns into \<^verbatim>\<open>''\<close>. Areas and ratios are
  real numbers. \<^verbatim>\<open>LAD\<close> is the list of its rows \<open>(LAD21NM, geometry)\<close>.
\<close>

type_synonym box = "real \<times> real \<times> real \<times> real"

record 'g geometry_ops =
  intersects :: "'g \<Rightarrow> box \<Rightarrow> bool option"
  inter_area :: "'g \<Rightarrow> box \<Rightarrow> real option"

definition box_area :: "box \<Rightarrow> real" where
  "box_area b = (case b of (x1, y1, x2, y2) \<Rightarrow> \<bar>x2 - x1\<bar> * \<bar>y2 - y1\<bar>)"

text \<open>The rows of \<^verbatim>\<open>LAD[inter_se]\<close>; \<open>None\<close> when an \<^verbatim>\<open>intersects\<close> call raises.\<close>

fun intersecting :: "'g geometry_ops \<Rightarrow> box \<Rightarrow> (string \<times> 'g) list \<Rightarrow> (string \<times> 'g) list option" where
  "intersecting ops b [] = Some []"
| "intersecting ops b ((n, g) # rows) =
     (case intersects ops g b of
        None \<Rightarrow> None
      | Some f \<Rightarrow>
          (case intersecting ops b rows of
             None \<Rightarrow> None
           | Some rest \<Rightarrow> Some (if f then (n, g) # rest else rest)))"

text \<open>The intersection areas of those rows, each with the row's name.\<close>

fun areas :: "'g geometry_ops \<Rightarrow> box \<Rightarrow> (string \<times> 'g) list \<Rightarrow> (string \<times> real) list option" where
  "areas ops b [] = Some []"
| "areas ops b ((n, g) # rows) =
     (case inter_area ops g b of
        None \<Rightarrow> None
      | Some a \<Rightarrow>
          (case areas ops b rows of
             None \<Rightarrow> None
           | Some rest \<Rightarrow> Some ((n, a) # rest)))"

text \<open>\<^verbatim>\<open>idxmax\<close>: the first row that holds the maximum.\<close>

fun idxmax :: "(string \<times> real) list \<Rightarrow> (string \<times> real) option" where
  "idxmax [] = None"
| "idxmax ((n, r) # rows) =
     (case idxmax rows of
        None \<Rightarrow> Some (n, r)
      | Some (n', r') \<Rightarrow> if r' > r then Some (n', r') else Some (n, r))"

text \<open>
  With a box of area zero the division is a floating-point division by zero: a positive
  area gives \<^verbatim>\<open>inf\<close>, which is the maximum and exceeds 0.6, a zero area gives \<^verbatim>\<open>nan\<close>,
  which \<^verbatim>\<open>max\<close> skips, and a maximum of \<^verbatim>\<open>nan\<close> or \<^verbatim>\<open>-inf\<close> does not exceed 0.6.
\<close>

definition IOU :: "'g geometry_ops \<Rightarrow> (string \<times> 'g) list \<Rightarrow> (real \<times> real \<times> real \<times> real) option \<Rightarrow> string" where
  "IOU ops LAD se =
     (case se of
        None \<Rightarrow> ''''
      | Some (y1, x1, y2, x2) \<Rightarrow>
          if y2 - y1 > 2 then ''''
          else
            (let poly2 = (x1, y1, x2, y2) in
             case intersecting ops poly2 LAD of
               None \<Rightarrow> ''''
             | Some temp_df \<Rightarrow>
                 (case areas ops poly2 temp_df of
                    None \<Rightarrow> ''''
                  | Some ia \<Rightarrow>
                      if box_area poly2 = 0 then
                        (case filter (\<lambda>(n, a). a > 0) ia of
                           [] \<Rightarrow> ''''
                         | (n, a) # _ \<Rightarrow> n)
                      else
                        (case idxmax (map (\<lambda>(n, a). (n, a / box_area poly2)) ia) of
                           None \<Rightarrow> ''''
                         | Some (n, r) \<Rightarrow> if r > 0.6 then n else ''''))))"

text \<open>An instance of the geometry: units that are axis-parallel rectangles.\<close>

definition rect_overlap :: "box \<Rightarrow> box \<Rightarrow> real \<times> real" where
  "rect_overlap g b =
     (case g of (gx1, gy1, gx2, gy2) \<Rightarrow> case b of (x1, y1, x2, y2) \<Rightarrow>
        (min gx2 (max x1 x2) - max gx1 (min x1 x2), min gy2 (max y1 y2) - max gy1 (min y1 y2)))"

definition rect_ops :: "box geometry_ops" where
  "rect_ops =
     \<lparr>intersects = (\<lambda>g b. case rect_overlap g b of (w, h) \<Rightarrow> Some (w \<ge> 0 \<and> h \<ge> 0)),
      inter_area = (\<lambda>g b. case rect_overlap g b of (w, h) \<Rightarrow> Some (max w 0 * max h 0))\<rparr>"

definition ex_LAD :: "(string \<times> box) list" where
  "ex_LAD = [(''Hartlepool'', (0, 0, 10, 10)), (''Brighton and Hove'', (10, 0, 20, 10))]"

subsection \<open>Data frames\<close>

text \<open>
  \<^verbatim>\<open>drop_duplicates\<close> keeps the first occurrence of every row. \<^verbatim>\<open>value_counts\<close> gives
  every distinct row with the number of its occurrences, in descending order of that
  number; rows with the same number stay in the order of their first occurrence. pandas
  leaves the order among equal counts open. The homes do not depend on it:
  \<^verbatim>\<open>user_localization\<close> returns the locality of a user's first row only when its
  share exceeds 0.65, and then no other locality of the user has as many posts.
\<close>

definition drop_duplicates :: "'a list \<Rightarrow> 'a list" where
  "drop_duplicates xs = rev (remdups (rev xs))"

definition value_counts :: "'a list \<Rightarrow> ('a \<times> nat) list" where
  "value_counts xs =
     sort_key (\<lambda>(x, c). - int c) (map (\<lambda>x. (x, count_list xs x)) (drop_duplicates xs))"

text \<open>
  \<^verbatim>\<open>left.merge(right, how='left', on=key)\<close>: every left row, in order, once for each right
  row with its key, or once with missing cells when no right row has its key.
\<close>

definition merge_left :: "('k \<times> 'a) list \<Rightarrow> ('k \<times> 'b) list \<Rightarrow> ('k \<times> 'a \<times> 'b option) list" where
  "merge_left L R =
     concat (map (\<lambda>(k, a).
       case filter (\<lambda>(k', b). k' = k) R of
         [] \<Rightarrow> [(k, a, None)]
       | ms \<Rightarrow> map (\<lambda>(k', b). (k, a, Some b)) ms) L)"

subsection \<open>User localization\<close>

text \<open>
  \<^verbatim>\<open>twitter_LAD\<close> is the list of the month's posts \<open>(userid, locality)\<close> that have a
  locality. The quotient \<^verbatim>\<open>max / sum\<close> and the bound 0.65 are real numbers here; the
  floating-point comparison of the notebook gives the same answer as long as a user has
  fewer than \<open>10\<^sup>1\<^sup>4\<close> posts in the month.
\<close>

type_synonym post = "int \<times> string"

type_synonym home_row = "int \<times> nat \<times> string option"

definition user_localization :: "(post \<times> nat) list \<Rightarrow> int \<Rightarrow> string" where
  "user_localization twitter_LAD_count_df userid =
     (let temp_df = filter (\<lambda>((u, l), c). u = userid) twitter_LAD_count_df;
          total = sum_list (map snd temp_df)
      in case temp_df of
           [] \<Rightarrow> ''''
         | ((u, l), c) # rest \<Rightarrow>
             if total > 1 \<and> real (Max (set (map snd temp_df))) / real total > 0.65
             then l else '''')"

text \<open>\<^verbatim>\<open>user_LAD\<close> before the merge: the users with more than one post.\<close>

definition user_LAD_counts :: "post list \<Rightarrow> (int \<times> nat) list" where
  "user_LAD_counts twitter_LAD = filter (\<lambda>(u, c). c > 1) (value_counts (map fst twitter_LAD))"

text \<open>\<^verbatim>\<open>user_oneloc\<close>: the users with one distinct locality, each with that locality.\<close>

definition user_oneloc :: "post list \<Rightarrow> (int \<times> string option) list" where
  "user_oneloc twitter_LAD =
     (let user_loc_pair = drop_duplicates twitter_LAD;
          user_loc_count = value_counts (map fst user_loc_pair)
      in map (\<lambda>(u, one, l). (u, l))
           (merge_left (filter (\<lambda>(u, c). c = 1) user_loc_count) user_loc_pair))"

text \<open>\<^verbatim>\<open>user_LAD\<close> after the merge with \<^verbatim>\<open>user_oneloc\<close>, with the column \<^verbatim>\<open>home\<close>.\<close>

definition user_LAD :: "post list \<Rightarrow> home_row list" where
  "user_LAD twitter_LAD =
     map (\<lambda>(u, c, h). (u, c, case h of None \<Rightarrow> None | Some cell \<Rightarrow> cell))
       (merge_left (user_LAD_counts twitter_LAD) (user_oneloc twitter_LAD))"

text \<open>
  \<^verbatim>\<open>for i in range(n)\<close>: a row whose \<^verbatim>\<open>home\<close> is a string is left alone, any other row
  gets \<^verbatim>\<open>user_localization\<close> of its user. The loop is only run with \<open>n\<close> up to the
  number of rows, so every index is in range.
\<close>

definition threshold_loop :: "(post \<times> nat) list \<Rightarrow> nat \<Rightarrow> home_row list \<Rightarrow> home_row list" where
  "threshold_loop twitter_LAD_count_df n tbl =
     fold (\<lambda>i acc. case acc ! i of
                      (u, c, Some h) \<Rightarrow> acc
                    | (u, c, None) \<Rightarrow> acc[i := (u, c, Some (user_localization twitter_LAD_count_df u))])
       [0..<n] tbl"

text \<open>What one iteration of that loop does to the row it visits.\<close>

definition threshold_step :: "(post \<times> nat) list \<Rightarrow> home_row \<Rightarrow> home_row" where
  "threshold_step twitter_LAD_count_df row =
     (case row of
        (u, c, Some h) \<Rightarrow> (u, c, Some h)
      | (u, c, None) \<Rightarrow> (u, c, Some (user_localization twitter_LAD_count_df u)))"

definition endline :: "home_row list \<Rightarrow> nat" where
  "endline tbl = length tbl - length (filter (\<lambda>(u, c, h). c = 2) tbl)"

definition user_home :: "post list \<Rightarrow> home_row list" where
  "user_home twitter_LAD =
     threshold_loop (value_counts twitter_LAD) (endline (user_LAD twitter_LAD)) (user_LAD twitter_LAD)"

text \<open>
  The pass of claim C10 that is compared with \<open>user_home\<close>: \<^verbatim>\<open>user_localization\<close> for
  every row of the table, not only for the first \<open>endline\<close> rows.
\<close>

definition user_home_every_user :: "post list \<Rightarrow> home_row list" where
  "user_home_every_user twitter_LAD =
     threshold_loop (value_counts twitter_LAD) (length (user_LAD twitter_LAD)) (user_LAD twitter_LAD)"

text \<open>
  The table as \<^verbatim>\<open>migration\<close> reads it back from the file that \<^verbatim>\<open>to_csv\<close> wrote: an empty
  string and a missing cell are both an empty field, which \<^verbatim>\<open>read_csv\<close> reads as missing.
\<close>

definition read_back :: "home_row list \<Rightarrow> home_row list" where
  "read_back tbl = map (\<lambda>(u, c, h). (u, c, if h = Some '''' then None else h)) tbl"

text \<open>The cell \<^verbatim>\<open>home\<close> of a user: \<open>None\<close> when the table has no row for the user.\<close>

definition home_of :: "home_row list \<Rightarrow> int \<Rightarrow> string option option" where
  "home_of tbl u = map_of (map (\<lambda>(u, c, h). (u, h)) tbl) u"

text \<open>All posts of the user \<open>u\<close> have the locality \<open>l\<close>, and there is such a post.\<close>

definition one_locality :: "post list \<Rightarrow> int \<Rightarrow> string \<Rightarrow> bool" where
  "one_locality tw u l \<longleftrightarrow> (u, l) \<in> set tw \<and> (\<forall>l'. (u, l') \<in> set tw \<longrightarrow> l' = l)"

text \<open>The column that the merge adds to a user's row.\<close>

definition oneloc_home :: "post list \<Rightarrow> int \<Rightarrow> string option" where
  "oneloc_home tw u = (case map_of (user_oneloc tw) u of None \<Rightarrow> None | Some cell \<Rightarrow> cell)"

text \<open>
  What the threshold pass leaves in a row that it visits: the one locality, or the result
  of \<^verbatim>\<open>user_localization\<close>.
\<close>

definition assigned :: "post list \<Rightarrow> int \<Rightarrow> string option" where
  "assigned tw u =
     (case oneloc_home tw u of
        Some l \<Rightarrow> Some l
      | None \<Rightarrow> Some (user_localization (value_counts tw) u))"

subsection \<open>Migration flows\<close>

function str_nat :: "nat \<Rightarrow> string" where
  "str_nat n =
     (if n < 10 then [''0123456789'' ! n]
      else str_nat (n div 10) @ [''0123456789'' ! (n mod 10)])"
  by pat_completeness auto
termination
  by (relation "measure id") auto

definition zfill :: "nat \<Rightarrow> string \<Rightarrow> string" where
  "zfill w s = replicate (w - length s) CHR ''0'' @ s"

definition month_label :: "nat \<Rightarrow> nat \<Rightarrow> string" where
  "month_label year month = str_nat year @ ''-'' @ zfill 2 (str_nat month)"

text \<open>
  \<^verbatim>\<open>migration_df\<close>: the rows of the left merge of the two user-home tables that have a
  home in both months, and two different homes. Each row is the user with the two homes.
\<close>

definition migration_df :: "home_row list \<Rightarrow> home_row list \<Rightarrow> (int \<times> string \<times> string) list" where
  "migration_df df1 df2 =
     concat (map (\<lambda>(u, (c1, h1), r).
        case (h1, r) of
          (Some home_x, Some (c2, Some home_y)) \<Rightarrow>
             if home_x \<noteq> home_y then [(u, home_x, home_y)] else []
        | _ \<Rightarrow> [])
       (merge_left df1 df2))"

text \<open>
  \<^verbatim>\<open>groupby(['home_x', 'home_y']).count()\<close>: one row for each pair of homes, in ascending
  order of the pairs, with the number of rows of the group.
\<close>

type_synonym flow_row = "string \<times> string \<times> nat \<times> string \<times> string"

definition migration :: "nat \<Rightarrow> nat \<Rightarrow> nat \<Rightarrow> nat \<Rightarrow> home_row list \<Rightarrow> home_row list \<Rightarrow> flow_row list" where
  "migration year1 month1 year2 month2 df1 df2 =
     (let mig = migration_df df1 df2
      in map (\<lambda>(org, dst).
             (org, dst, length (filter (\<lambda>(u, x, y). (x, y) = (org, dst)) mig),
              month_label year1 month1, month_label year2 month2))
           (sort (remdups (map snd mig))))"

text \<open>The flow from \<open>org\<close> to \<open>dst\<close> in a flow table: 0 when the table has no such row.\<close>

definition flow_of :: "flow_row list \<Rightarrow> string \<Rightarrow> string \<Rightarrow> nat" where
  "flow_of flows org dst =
     (case List.find (\<lambda>(x, y, f, ms, me). x = org \<and> y = dst) flows of
        None \<Rightarrow> 0
      | Some (x, y, f, ms, me) \<Rightarrow> f)"

subsection \<open>Example data\<close>

definition ex_lookup_df :: lookup_df where
  "ex_lookup_df =
     \<lparr>LAD21NM = [''Hartlepool'', ''Brighton and Hove'', ''Bristol, City of''],
      LAU121NM = [''Hartlepool'', ''Brighton and Hove'', ''Bristol, City of''],
      ITL321NM = [''Hartlepool and Stockton-on-Tees''],
      ITL221NM = [''Tees Valley and Durham''],
      ITL121NM = [''North East (England)'']\<rparr>"

text \<open>A hierarchy with a finest-level name that has both separators.\<close>

definition ex_compound_df :: lookup_df where
  "ex_compound_df =
     \<lparr>LAD21NM = [''Bournemouth, Christchurch and Poole'', ''Bristol, City of'', ''Dorset''],
      LAU121NM = [''Bournemouth, Christchurch and Poole'', ''Bristol, City of'', ''Dorset''],
      ITL321NM = [''Bournemouth, Christchurch and Poole'', ''Bristol, City of'', ''Dorset''],
      ITL221NM = [''Dorset and Somerset'', ''Gloucestershire, Wiltshire and Bath/Bristol area''],
      ITL121NM = [''South West (England)'']\<rparr>"

definition ex_ward_rows :: "(string \<times> string) list" where
  "ex_ward_rows =
     [(''Hart'', ''Hartlepool''), (''Hove Park'', ''Brighton and Hove''),
      (''Hangleton and Knoll'', ''Brighton and Hove'')]"

text \<open>A ward file whose parent column holds names that the hierarchy file does not list.\<close>

definition cyclic_ward_rows :: "(string \<times> string) list" where
  "cyclic_ward_rows = [(''Abbey'', ''Priory''), (''Priory'', ''Abbey'')]"

definition ex_rows :: "place_row list" where
  "ex_rows =
     [\<lparr>location = ''Atlantis'', locality = '''', bbox = None\<rparr>,
      \<lparr>location = ''Hart'', locality = ''Hartlepool'', bbox = None\<rparr>]"

text \<open>A service that answers 404, one that cannot be reached, one that sends no address.\<close>

definition get_404 :: requests_get where
  "get_404 = (\<lambda>url. Inr (Response 404 0 []))"

definition get_down :: requests_get where
  "get_down = (\<lambda>url. Inl ConnectionError)"

definition get_no_address :: requests_get where
  "get_no_address = (\<lambda>url. Inr (Response 200 1 [Resource (Address None None) [54, -2, 55, -1]]))"

text \<open>
  A month of posts: user 1 posts once, user 2 twice from one place, user 3 twice from two
  places, user 4 ten times with seven posts from one place, user 5 ten times with six.
\<close>

definition ex_posts :: "post list" where
  "ex_posts =
     [(1, ''Bristol, City of''),
      (2, ''Dundee City''), (2, ''Dundee City''),
      (3, ''Hartlepool''), (3, ''Dundee City'')]
     @ replicate 7 (4, ''Hartlepool'') @ replicate 3 (4, ''Dundee City'')
     @ replicate 6 (5, ''Hartlepool'') @ replicate 4 (5, ''Dundee City'')"

definition ex_month_A :: "home_row list" where
  "ex_month_A =
     [(1, 5, Some ''Bristol, City of''), (2, 3, Some ''Hartlepool''), (3, 2, None),
      (4, 4, Some ''Dundee City''), (5, 2, Some ''Bristol, City of'')]"

definition ex_month_B :: "home_row list" where
  "ex_month_B =
     [(1, 2, Some ''Dundee City''), (2, 6, Some ''Hartlepool''), (3, 2, Some ''Dundee City''),
      (4, 3, None), (6, 2, Some ''Dundee City'')]"

section \<open>Lookup table: what construction yields\<close>

lemma map_of_fold_update:
  "map_of (fold (\<lambda>(k, v) acc. AList.update k v acc) e d) = map_of d ++ map_of (rev e)"
proof (induction e arbitrary: d)
  case Nil
  show ?case by simp
next
  case (Cons x e)
  obtain k v where x: "x = (k, v)" by (cases x)
  show ?case
    by (rule ext) (auto simp: x Cons.IH update_conv' map_add_def split: option.splits)
qed

lemma map_of_dict_update: "map_of (dict_update d e) = map_of d ++ map_of (rev e)"
  unfolding dict_update_def by (rule map_of_fold_update)

lemma distinct_fold_update:
  "distinct (map fst d) \<Longrightarrow> distinct (map fst (fold (\<lambda>(k, v) acc. AList.update k v acc) e d))"
  by (induction e arbitrary: d) (auto simp: distinct_update)

lemma distinct_dict_update: "distinct (map fst d) \<Longrightarrow> distinct (map fst (dict_update d e))"
  unfolding dict_update_def by (rule distinct_fold_update)

lemma map_of_rev_distinct: "distinct (map fst xs) \<Longrightarrow> map_of (rev xs) = map_of xs"
proof (induction xs)
  case Nil
  show ?case by simp
next
  case (Cons x xs)
  obtain k v where x: "x = (k, v)" by (cases x)
  from Cons.prems have k: "map_of xs k = None"
    by (simp add: x map_of_eq_None_iff)
  from Cons have IH: "map_of (rev xs) = map_of xs" by simp
  show ?case
    using k by (auto simp: x IH fun_eq_iff map_add_def split: option.splits)
qed

lemma map_of_fold_delete:
  "map_of (fold (\<lambda>i acc. if P i then AList.delete i acc else acc) ks d) k
     = (if k \<in> set ks \<and> P k then None else map_of d k)"
  by (induction ks arbitrary: d) (auto simp: delete_conv')

lemma map_of_delete_duplicates:
  "map_of (delete_duplicates df d) k
     = (if k \<in> LAD_set df \<or> k \<in> larger_than_LAD_set df then None else map_of d k)"
proof -
  have "k \<notin> set (map fst d) \<Longrightarrow> map_of d k = None"
    by (simp add: map_of_eq_None_iff)
  then show ?thesis
    unfolding delete_duplicates_def by (auto simp: map_of_fold_delete)
qed

lemma fold_index_parts:
  "fold (\<lambda>i acc. AList.update (xs ! i) t acc) [0..<length xs] d
     = fold (\<lambda>p acc. AList.update p t acc) xs d"
proof -
  have "fold (\<lambda>p acc. AList.update p t acc) (map ((!) xs) [0..<length xs]) d
        = fold (\<lambda>i acc. AList.update (xs ! i) t acc) [0..<length xs] d"
    by (simp add: fold_map comp_def)
  then show ?thesis by (simp add: map_nth)
qed

lemma map_of_fold_const:
  "map_of (fold (\<lambda>p acc. AList.update p t acc) xs d) k
     = (if k \<in> set xs then Some t else map_of d k)"
  by (induction xs arbitrary: d) (auto simp: update_conv')

lemma map_of_split_entry:
  "map_of (split_entry loc t d) k
     = (if splits loc \<and> k \<in> set (re_split loc) then Some t else map_of d k)"
  unfolding split_entry_def by (simp add: fold_index_parts map_of_fold_const)

lemma distinct_split_entry:
  "distinct (map fst d) \<Longrightarrow> distinct (map fst (split_entry loc t d))"
proof -
  have "distinct (map fst d) \<Longrightarrow> distinct (map fst (fold (\<lambda>p acc. AList.update p t acc) xs d))" for xs
    by (induction xs arbitrary: d) (auto simp: distinct_update)
  then show "distinct (map fst d) \<Longrightarrow> distinct (map fst (split_entry loc t d))"
    unfolding split_entry_def by (simp add: fold_index_parts)
qed

lemma find_append_last:
  "List.find P (xs @ ys) = (case List.find P xs of Some x \<Rightarrow> Some x | None \<Rightarrow> List.find P ys)"
  by (induction xs) auto

lemma map_of_fold_split:
  "map_of (fold (\<lambda>(loc, t) acc. split_entry loc t acc) ps d) k
     = (case List.find (\<lambda>(loc, t). splits loc \<and> k \<in> set (re_split loc)) (rev ps) of
          Some (loc, t) \<Rightarrow> Some t
        | None \<Rightarrow> map_of d k)"
proof (induction ps arbitrary: d)
  case Nil
  show ?case by simp
next
  case (Cons x ps)
  obtain loc t where x: "x = (loc, t)" by (cases x)
  show ?case
    by (simp add: x Cons.IH find_append_last map_of_split_entry split: option.splits)
qed

lemma distinct_fold_split:
  "distinct (map fst d) \<Longrightarrow> distinct (map fst (fold (\<lambda>(loc, t) acc. split_entry loc t acc) ps d))"
  by (induction ps arbitrary: d) (auto simp: distinct_split_entry)


lemma canonical_eq: "canonical df = LAD_set df \<union> larger_than_LAD_set df"
  unfolding canonical_def LAD_set_def larger_than_LAD_set_def by auto

lemma LAD_split_dict_pairs:
  "LAD_split_dict df = fold (\<lambda>(loc, t) acc. split_entry loc t acc) (map (\<lambda>l. (l, l)) (LAD21NM df)) []"
  unfolding LAD_split_dict_def by (simp add: fold_map comp_def)

lemma distinct_LAD_split_dict: "distinct (map fst (LAD_split_dict df))"
  unfolding LAD_split_dict_pairs by (rule distinct_fold_split) simp

lemma distinct_ward_dict: "distinct (map fst (ward_dict rows))"
  unfolding ward_dict_def by (rule distinct_dict_update) simp

lemma distinct_ward_split_dict: "distinct (map fst (ward_split_dict wd))"
  unfolding ward_split_dict_def by (rule distinct_fold_split) simp

lemma map_of_ward_dict: "map_of (ward_dict rows) = map_of (rev rows)"
  unfolding ward_dict_def by (simp add: map_of_dict_update)

lemma map_of_lookup_dict:
  "map_of (lookup_dict df rows) k =
     (if k \<in> LAD_set df \<or> k \<in> larger_than_LAD_set df then None
      else (map_of manual_lookup_dict ++ map_of (LAD_split_dict df) ++ map_of (ward_dict rows)
              ++ map_of (ward_split_dict (ward_dict rows))) k)"
  unfolding lookup_dict_def Let_def
  by (simp add: map_of_delete_duplicates map_of_dict_update map_of_rev_distinct
      distinct_LAD_split_dict distinct_ward_dict distinct_ward_split_dict)

lemma find_SomeD:
  assumes "List.find P xs = Some x"
  shows "x \<in> set xs" and "P x"
  using assms by (induction xs) (auto split: if_splits)

lemma LAD_split_dict_Some:
  assumes "map_of (LAD_split_dict df) p = Some t"
  shows "t \<in> set (LAD21NM df) \<and> splits t \<and> p \<in> set (re_split t)"
proof -
  from assms obtain x where
    f: "List.find (\<lambda>(loc, t). splits loc \<and> p \<in> set (re_split loc)) (rev (map (\<lambda>l. (l, l)) (LAD21NM df))) = Some x"
    and t: "snd x = t"
    unfolding LAD_split_dict_pairs map_of_fold_split by (auto split: option.splits)
  from f have "x \<in> set (rev (map (\<lambda>l. (l, l)) (LAD21NM df)))" and "(\<lambda>(loc, t). splits loc \<and> p \<in> set (re_split loc)) x"
    by (rule find_SomeD)+
  with t show ?thesis by auto
qed

lemma LAD_split_dict_key:
  assumes "loc \<in> set (LAD21NM df)" "splits loc" "p \<in> set (re_split loc)"
  shows "\<exists>t. map_of (LAD_split_dict df) p = Some t"
proof -
  have "List.find (\<lambda>(loc, t). splits loc \<and> p \<in> set (re_split loc)) (rev (map (\<lambda>l. (l, l)) (LAD21NM df))) \<noteq> None"
    using assms by (auto simp: find_None_iff)
  then show ?thesis
    unfolding LAD_split_dict_pairs map_of_fold_split by (auto split: option.splits)
qed

lemma ward_split_dict_Some:
  assumes "map_of (ward_split_dict wd) p = Some t"
  shows "\<exists>w. (w, t) \<in> set wd \<and> splits w \<and> p \<in> set (re_split w)"
proof -
  from assms obtain x where
    f: "List.find (\<lambda>(loc, t). splits loc \<and> p \<in> set (re_split loc)) (rev wd) = Some x"
    and t: "snd x = t"
    unfolding ward_split_dict_def map_of_fold_split by (auto split: option.splits)
  from f have "x \<in> set (rev wd)" and "(\<lambda>(loc, t). splits loc \<and> p \<in> set (re_split loc)) x"
    by (rule find_SomeD)+
  with t show ?thesis by (cases x) auto
qed

lemma ward_split_dict_key:
  assumes "(w, lad) \<in> set wd" "splits w" "p \<in> set (re_split w)"
  shows "\<exists>t. map_of (ward_split_dict wd) p = Some t"
proof -
  have "List.find (\<lambda>(loc, t). splits loc \<and> p \<in> set (re_split loc)) (rev wd) \<noteq> None"
    using assms by (auto simp: find_None_iff)
  then show ?thesis
    unfolding ward_split_dict_def map_of_fold_split by (auto split: option.splits)
qed

lemma match_LAD: "n \<in> t_LAD T \<Longrightarrow> match T n = Some 1"
  by (subst match.simps) simp

lemma match_larger: "n \<notin> t_LAD T \<Longrightarrow> n \<in> t_larger T \<Longrightarrow> match T n = Some 2"
  by (subst match.simps) simp

lemma match_unknown:
  "n \<notin> t_LAD T \<Longrightarrow> n \<notin> t_larger T \<Longrightarrow> map_of (t_lookup T) n = None \<Longrightarrow> match T n = Some 0"
  by (subst match.simps) simp

lemma match_alias:
  "n \<notin> t_LAD T \<Longrightarrow> n \<notin> t_larger T \<Longrightarrow> map_of (t_lookup T) n = Some t \<Longrightarrow> match T n = match T t"
  by (subst match.simps) simp

lemma keys_not_canonical:
  "k \<in> fst ` set (lookup_dict df rows) \<Longrightarrow> k \<notin> canonical df"
proof
  assume k: "k \<in> fst ` set (lookup_dict df rows)" and c: "k \<in> canonical df"
  from c have "map_of (lookup_dict df rows) k = None"
    by (simp add: map_of_lookup_dict canonical_eq)
  with k show False by (simp add: map_of_eq_None_iff)
qed

lemma manual_values_check:
  "list_all (\<lambda>(k, v). map_of manual_lookup_dict v = None) manual_lookup_dict"
  by code_simp

lemma manual_values_not_keys:
  assumes "map_of manual_lookup_dict k = Some v"
  shows "map_of manual_lookup_dict v = None"
proof -
  from assms have "(k, v) \<in> set manual_lookup_dict" by (rule map_of_SomeD)
  with manual_values_check show ?thesis by (auto simp: list_all_iff)
qed

subsection \<open>When a name is split\<close>

lemma match_sep_Nil: "match_sep seps [] = None"
  by (induction seps) auto

lemma split_aux_nonempty: "split_aux seps cur s \<noteq> []"
  by (induction seps cur s rule: split_aux.induct) (auto split: option.splits)

lemma split_aux_length:
  "length (split_aux seps cur s) \<ge> 2 \<longleftrightarrow> (\<exists>n. match_sep seps (drop n s) \<noteq> None)"
proof (induction s arbitrary: cur)
  case Nil
  show ?case by (simp add: match_sep_Nil)
next
  case (Cons c cs)
  show ?case
  proof (cases "match_sep seps (c # cs)")
    case (Some p)
    have "length (split_aux seps [] (drop (length p - 1) cs)) \<ge> 1"
      using split_aux_nonempty [of seps "[]" "drop (length p - 1) cs"]
      by (cases "split_aux seps [] (drop (length p - 1) cs)") auto
    moreover have "\<exists>n. match_sep seps (drop n (c # cs)) \<noteq> None"
      using Some by (intro exI [of _ 0]) simp
    ultimately show ?thesis using Some by simp
  next
    case None
    have "(\<exists>n. match_sep seps (drop n (c # cs)) \<noteq> None) \<longleftrightarrow> (\<exists>n. match_sep seps (drop n cs) \<noteq> None)"
    proof
      assume "\<exists>n. match_sep seps (drop n (c # cs)) \<noteq> None"
      then obtain n where n: "match_sep seps (drop n (c # cs)) \<noteq> None" ..
      with None obtain m where "n = Suc m" by (cases n) auto
      with n show "\<exists>n. match_sep seps (drop n cs) \<noteq> None" by auto
    next
      assume "\<exists>n. match_sep seps (drop n cs) \<noteq> None"
      then obtain n where "match_sep seps (drop n cs) \<noteq> None" ..
      then have "match_sep seps (drop (Suc n) (c # cs)) \<noteq> None" by simp
      then show "\<exists>n. match_sep seps (drop n (c # cs)) \<noteq> None" ..
    qed
    with None Cons.IH [of "c # cur"] show ?thesis by simp
  qed
qed

lemma splits_iff: "splits loc \<longleftrightarrow> (\<exists>n. take 5 (drop n loc) = '' and '')"
proof -
  have a: "length (str_split '' and '' loc) \<ge> 2 \<longleftrightarrow> (\<exists>n. take 5 (drop n loc) = '' and '')"
    unfolding str_split_def split_aux_length by (simp add: eval_nat_numeral split: if_splits)
  have b: "length (re_split loc) \<ge> 2 \<longleftrightarrow>
      (\<exists>n. take 5 (drop n loc) = '' and '' \<or> take 2 (drop n loc) = '', '')"
    unfolding re_split_def split_aux_length by (auto simp: eval_nat_numeral split: if_splits)
  show ?thesis unfolding splits_def a b by auto
qed


lemma contains_str_iff: "contains_str sub s \<longleftrightarrow> (\<exists>n. take (length sub) (drop n s) = sub)"
proof
  assume "contains_str sub s"
  then show "\<exists>n. take (length sub) (drop n s) = sub"
    by (auto simp: contains_str_def list_ex_iff)
next
  assume "\<exists>n. take (length sub) (drop n s) = sub"
  then obtain n where n: "take (length sub) (drop n s) = sub" ..
  have "\<exists>m \<le> length s. take (length sub) (drop m s) = sub"
  proof (cases "n \<le> length s")
    case True
    with n show ?thesis by blast
  next
    case False
    then have "drop n s = drop (length s) s" by simp
    with n have "take (length sub) (drop (length s) s) = sub" by simp
    then show ?thesis by blast
  qed
  then obtain m where "m \<le> length s" "take (length sub) (drop m s) = sub" by blast
  then have "m \<in> set [0..<Suc (length s)]" "take (length sub) (drop m s) = sub"
    by (simp_all add: less_Suc_eq_le del: upt_Suc)
  then show "contains_str sub s" unfolding contains_str_def list_ex_iff by blast
qed

lemma splits_contains: "splits loc \<longleftrightarrow> contains_str '' and '' loc"
  unfolding splits_iff contains_str_iff by (simp add: eval_nat_numeral)

lemma match_sep_Some:
  assumes "match_sep seps s = Some sp"
  shows "sp \<in> set seps \<and> sp \<noteq> [] \<and> take (length sp) s = sp"
  using assms by (induction seps) (auto split: if_splits)

lemma match_sep_None:
  assumes "match_sep seps s = None" "sp \<in> set seps" "sp \<noteq> []"
  shows "take (length sp) s \<noteq> sp"
  using assms by (induction seps) (auto split: if_splits)

lemma match_sep_prefix:
  assumes "match_sep seps (xs @ ys) = None"
  shows "match_sep seps xs = None"
proof (cases "match_sep seps xs")
  case None
  then show ?thesis .
next
  case (Some sp)
  from match_sep_Some [OF this] have sp: "sp \<in> set seps" "sp \<noteq> []" "take (length sp) xs = sp"
    by simp_all
  have "length (take (length sp) xs) = length sp" by (simp only: sp(3))
  then have "length sp \<le> length xs" by simp
  with sp(3) have "take (length sp) (xs @ ys) = sp" by simp
  with match_sep_None [OF assms sp(1,2)] show ?thesis by simp
qed

lemma split_aux_join:
  "\<exists>q qs ss. split_aux seps cur s = q # qs \<and> length ss = length qs \<and>
       set ss \<subseteq> {x \<in> set seps. x \<noteq> []} \<and>
       rev cur @ s = q @ concat (map (\<lambda>(sep, r). sep @ r) (zip ss qs))"
proof (induction seps cur s rule: split_aux.induct)
  case (1 seps cur)
  have "split_aux seps cur [] = rev cur # []" by simp
  then show ?case by (intro exI [of _ "rev cur"] exI [of _ "[]"]) simp
next
  case (2 seps cur c cs)
  show ?case
  proof (cases "match_sep seps (c # cs)")
    case None
    from "2.IH"(1) [OF None] obtain q qs ss where
      "split_aux seps (c # cur) cs = q # qs" "length ss = length qs"
      "set ss \<subseteq> {x \<in> set seps. x \<noteq> []}"
      "rev (c # cur) @ cs = q @ concat (map (\<lambda>(sep, r). sep @ r) (zip ss qs))" by blast
    with None show ?thesis by (intro exI [of _ q] exI [of _ qs] exI [of _ ss]) simp
  next
    case (Some sp)
    from match_sep_Some [OF Some] have sp: "sp \<in> set seps" "sp \<noteq> []"
      "take (length sp) (c # cs) = sp" by simp_all
    from sp(2) have "drop (length sp) (c # cs) = drop (length sp - 1) cs"
      by (cases sp) simp_all
    moreover have "c # cs = take (length sp) (c # cs) @ drop (length sp) (c # cs)"
      by (simp only: append_take_drop_id)
    ultimately have whole: "c # cs = sp @ drop (length sp - 1) cs"
      by (simp only: sp(3))
    from "2.IH"(2) [OF Some] obtain q qs ss where rest:
      "split_aux seps [] (drop (length sp - 1) cs) = q # qs" "length ss = length qs"
      "set ss \<subseteq> {x \<in> set seps. x \<noteq> []}"
      "rev [] @ drop (length sp - 1) cs = q @ concat (map (\<lambda>(sep, r). sep @ r) (zip ss qs))"
      by blast
    have a: "split_aux seps cur (c # cs) = rev cur # (q # qs)" using Some rest(1) by simp
    have b: "length (sp # ss) = length (q # qs)" using rest(2) by simp
    have c: "set (sp # ss) \<subseteq> {x \<in> set seps. x \<noteq> []}" using rest(3) sp by simp
    have "rev cur @ c # cs = rev cur @ sp @ drop (length sp - 1) cs" using whole by simp
    also have "\<dots> = rev cur @ concat (map (\<lambda>(sep, r). sep @ r) (zip (sp # ss) (q # qs)))"
      using rest(4) by simp
    finally have d: "rev cur @ c # cs
        = rev cur @ concat (map (\<lambda>(sep, r). sep @ r) (zip (sp # ss) (q # qs)))" .
    from a b c d show ?thesis by blast
  qed
qed

lemma split_aux_free:
  assumes "\<forall>n<length cur. match_sep seps (drop n (rev cur @ s)) = None"
  shows "\<forall>q \<in> set (split_aux seps cur s). \<forall>n. match_sep seps (drop n q) = None"
  using assms
proof (induction seps cur s rule: split_aux.induct)
  case (1 seps cur)
  have "match_sep seps (drop n (rev cur)) = None" for n
  proof (cases "n < length cur")
    case True
    with 1 show ?thesis by simp
  next
    case False
    then show ?thesis by (simp add: match_sep_Nil)
  qed
  then show ?case by simp
next
  case (2 seps cur c cs)
  have curfree: "match_sep seps (drop n (rev cur)) = None" for n
  proof (cases "n < length cur")
    case True
    with "2.prems" have "match_sep seps (drop n (rev cur @ c # cs)) = None" by simp
    with True have "match_sep seps (drop n (rev cur) @ c # cs) = None" by simp
    then show ?thesis by (rule match_sep_prefix)
  next
    case False
    then show ?thesis by (simp add: match_sep_Nil)
  qed
  show ?case
  proof (cases "match_sep seps (c # cs)")
    case (Some sp)
    have "\<forall>n<length ([]::string). match_sep seps (drop n (rev [] @ drop (length sp - 1) cs)) = None"
      by simp
    from "2.IH"(2) [OF Some this] curfree Some show ?thesis by simp
  next
    case None
    have "\<forall>n<length (c # cur). match_sep seps (drop n (rev (c # cur) @ cs)) = None"
    proof (intro allI impI)
      fix n assume n: "n < length (c # cur)"
      show "match_sep seps (drop n (rev (c # cur) @ cs)) = None"
      proof (cases "n < length cur")
        case True
        with "2.prems" show ?thesis by simp
      next
        case False
        with n have "n = length cur" by simp
        then show ?thesis using None by simp
      qed
    qed
    from "2.IH"(1) [OF None this] None show ?thesis by simp
  qed
qed

lemma re_split_join:
  "\<exists>q qs ss. re_split loc = q # qs \<and> length ss = length qs \<and>
       set ss \<subseteq> {'' and '', '', ''} \<and>
       loc = q @ concat (map (\<lambda>(sep, r). sep @ r) (zip ss qs))"
proof -
  have "{x \<in> set ['' and '', '', '']. x \<noteq> []} = {'' and '', '', ''}" by auto
  with split_aux_join [of "['' and '', '', '']" "[]" loc] show ?thesis
    unfolding re_split_def by simp
qed

lemma re_split_free:
  assumes "q \<in> set (re_split loc)"
  shows "\<not> contains_str '' and '' q \<and> \<not> contains_str '', '' q"
proof -
  have "\<forall>q \<in> set (split_aux ['' and '', '', ''] [] loc). \<forall>n. match_sep ['' and '', '', ''] (drop n q) = None"
    by (rule split_aux_free) simp
  with assms have none: "match_sep ['' and '', '', ''] (drop n q) = None" for n
    by (simp add: re_split_def)
  have "take (length '' and '') (drop n q) \<noteq> '' and ''" for n
    by (rule match_sep_None [OF none]) simp_all
  moreover have "take (length '', '') (drop n q) \<noteq> '', ''" for n
    by (rule match_sep_None [OF none]) simp_all
  ultimately show ?thesis unfolding contains_str_iff by blast
qed

subsection \<open>Aliases from compound names\<close>

lemma ex_ward_dict: "ward_dict ex_ward_rows = ex_ward_rows"
  by code_simp

text \<open>
  Claim C3 (as amended). A name passes the guard of the splitting loops (\<open>splits\<close>) if
  and only if it contains \<open>" and "\<close>, so a comma-separated list without \<open>" and "\<close> is
  not decomposed. \<open>re_split\<close> cuts a name at \<open>" and "\<close> and \<open>", "\<close>: the parts joined by
  these separators give the name back, and no part contains a separator. Every part of a
  finest-level name that contains \<open>" and "\<close> is a key of \<^verbatim>\<open>LAD_split_dict\<close>, and every key
  of \<^verbatim>\<open>LAD_split_dict\<close> has as its value a finest-level name that contains \<open>" and "\<close> and
  has the key as a part. Every part of a ward name that contains \<open>" and "\<close> is a key of
  \<^verbatim>\<open>ward_split_dict\<close>, and every key of \<^verbatim>\<open>ward_split_dict\<close> has as its value the parent of
  a ward name that contains \<open>" and "\<close> and has the key as a part. The finished table has
  no entry for a canonical name; for any other string its entry is the ward-part alias if
  there is one, else the ward entry, else the finest-level part alias, else the manual
  entry. So a part that is not a canonical name maps to the whole name \<open>loc\<close> when no
  other compound finest-level name has this part and no ward entry or ward part has this
  key, and it maps to the parent \<open>lad\<close> when every compound ward name with this part has
  the parent \<open>lad\<close>.
\<close>

theorem compound_parts_aliased:
  "(splits loc \<longleftrightarrow> contains_str '' and '' loc) \<and>
   (\<exists>q qs ss. re_split loc = q # qs \<and> length ss = length qs \<and>
        set ss \<subseteq> {'' and '', '', ''} \<and>
        loc = q @ concat (map (\<lambda>(sep, r). sep @ r) (zip ss qs))) \<and>
   (\<forall>q \<in> set (re_split loc). \<not> contains_str '' and '' q \<and> \<not> contains_str '', '' q) \<and>
   (loc \<in> set (LAD21NM df) \<and> contains_str '' and '' loc \<and> p \<in> set (re_split loc) \<longrightarrow>
      (\<exists>v. map_of (LAD_split_dict df) p = Some v)) \<and>
   (map_of (LAD_split_dict df) p = Some t \<longrightarrow>
      t \<in> set (LAD21NM df) \<and> contains_str '' and '' t \<and> p \<in> set (re_split t)) \<and>
   (map_of (ward_dict rows) loc = Some lad \<and> contains_str '' and '' loc \<and> p \<in> set (re_split loc) \<longrightarrow>
      (\<exists>v. map_of (ward_split_dict (ward_dict rows)) p = Some v)) \<and>
   (map_of (ward_split_dict (ward_dict rows)) p = Some t \<longrightarrow>
      (\<exists>w. map_of (ward_dict rows) w = Some t \<and> contains_str '' and '' w \<and> p \<in> set (re_split w))) \<and>
   map_of (lookup_dict df rows) p =
      (if p \<in> canonical df then None
       else (map_of manual_lookup_dict ++ map_of (LAD_split_dict df) ++ map_of (ward_dict rows)
               ++ map_of (ward_split_dict (ward_dict rows))) p) \<and>
   (loc \<in> set (LAD21NM df) \<and> contains_str '' and '' loc \<and> p \<in> set (re_split loc) \<and>
      p \<notin> canonical df \<and>
      (\<forall>l \<in> set (LAD21NM df). contains_str '' and '' l \<and> p \<in> set (re_split l) \<longrightarrow> l = loc) \<and>
      map_of (ward_dict rows) p = None \<and> map_of (ward_split_dict (ward_dict rows)) p = None \<longrightarrow>
      map_of (lookup_dict df rows) p = Some loc) \<and>
   (map_of (ward_dict rows) loc = Some lad \<and> contains_str '' and '' loc \<and> p \<in> set (re_split loc) \<and>
      p \<notin> canonical df \<and>
      (\<forall>w l. map_of (ward_dict rows) w = Some l \<and> contains_str '' and '' w \<and> p \<in> set (re_split w)
          \<longrightarrow> l = lad) \<longrightarrow>
      map_of (lookup_dict df rows) p = Some lad)"
proof -
  let ?wd = "ward_dict rows"
  have wd_mem: "(w, l) \<in> set ?wd \<longleftrightarrow> map_of ?wd w = Some l" for w l
    using distinct_ward_dict [of rows] by simp
  have c1: "splits loc \<longleftrightarrow> contains_str '' and '' loc" by (rule splits_contains)
  note c2 = re_split_join [of loc]
  have c3: "\<forall>q \<in> set (re_split loc). \<not> contains_str '' and '' q \<and> \<not> contains_str '', '' q"
    using re_split_free by blast
  have c4: "\<exists>v. map_of (LAD_split_dict df) p = Some v"
    if "loc \<in> set (LAD21NM df) \<and> contains_str '' and '' loc \<and> p \<in> set (re_split loc)"
    using that LAD_split_dict_key [of loc df p] by (simp add: splits_contains)
  have c5: "t \<in> set (LAD21NM df) \<and> contains_str '' and '' t \<and> p \<in> set (re_split t)"
    if "map_of (LAD_split_dict df) p = Some t"
    using LAD_split_dict_Some [OF that] by (simp add: splits_contains)
  have c6: "\<exists>v. map_of (ward_split_dict ?wd) p = Some v"
    if "map_of ?wd loc = Some lad \<and> contains_str '' and '' loc \<and> p \<in> set (re_split loc)"
    using that ward_split_dict_key [of loc lad ?wd p] by (simp add: splits_contains wd_mem)
  have c7: "\<exists>w. map_of ?wd w = Some t \<and> contains_str '' and '' w \<and> p \<in> set (re_split w)"
    if "map_of (ward_split_dict ?wd) p = Some t"
    using ward_split_dict_Some [OF that] by (auto simp: splits_contains wd_mem)
  have c8: "map_of (lookup_dict df rows) p =
      (if p \<in> canonical df then None
       else (map_of manual_lookup_dict ++ map_of (LAD_split_dict df) ++ map_of ?wd
               ++ map_of (ward_split_dict ?wd)) p)"
    by (simp add: map_of_lookup_dict canonical_eq)
  have c9: "map_of (lookup_dict df rows) p = Some loc"
    if a: "loc \<in> set (LAD21NM df) \<and> contains_str '' and '' loc \<and> p \<in> set (re_split loc) \<and>
      p \<notin> canonical df \<and>
      (\<forall>l \<in> set (LAD21NM df). contains_str '' and '' l \<and> p \<in> set (re_split l) \<longrightarrow> l = loc) \<and>
      map_of ?wd p = None \<and> map_of (ward_split_dict ?wd) p = None"
  proof -
    from c4 a obtain v where v: "map_of (LAD_split_dict df) p = Some v" by blast
    from LAD_split_dict_Some [OF v] a have "v = loc" by (simp add: splits_contains)
    with v a show ?thesis unfolding c8 by (simp add: map_add_def)
  qed
  have c10: "map_of (lookup_dict df rows) p = Some lad"
    if a: "map_of ?wd loc = Some lad \<and> contains_str '' and '' loc \<and> p \<in> set (re_split loc) \<and>
      p \<notin> canonical df \<and>
      (\<forall>w l. map_of ?wd w = Some l \<and> contains_str '' and '' w \<and> p \<in> set (re_split w)
          \<longrightarrow> l = lad)"
  proof -
    from c6 a obtain v where v: "map_of (ward_split_dict ?wd) p = Some v" by blast
    from ward_split_dict_Some [OF v] obtain w
      where "map_of ?wd w = Some v" "contains_str '' and '' w" "p \<in> set (re_split w)"
      by (auto simp: splits_contains wd_mem)
    with a have "v = lad" by blast
    with v a show ?thesis unfolding c8 by (simp add: map_add_def)
  qed
  show ?thesis
    apply (rule conjI, rule c1)
    apply (rule conjI, rule c2)
    apply (rule conjI, rule c3)
    apply (rule conjI, rule impI, erule c4)
    apply (rule conjI, rule impI, erule c5)
    apply (rule conjI, rule impI, erule c6)
    apply (rule conjI, rule impI, erule c7)
    apply (rule conjI, rule c8)
    apply (rule conjI, rule impI, erule c9)
    apply (rule impI, erule c10)
    done
qed

text \<open>
  Witness for C3: the finest-level name \<open>Bournemouth, Christchurch and Poole\<close>, which
  has both separators, with its part \<open>Christchurch\<close>; the comma list
  \<open>Bristol, City of\<close>, which is not decomposed; and the ward name
  \<open>Hangleton and Knoll\<close> with its part \<open>Knoll\<close>.
\<close>

theorem compound_parts_aliased_witness:
  "contains_str '' and '' ''Bournemouth, Christchurch and Poole'' \<and>
   splits ''Bournemouth, Christchurch and Poole'' \<and>
   re_split ''Bournemouth, Christchurch and Poole'' = [''Bournemouth'', ''Christchurch'', ''Poole''] \<and>
   \<not> contains_str '', '' ''Christchurch'' \<and>
   ''Bournemouth, Christchurch and Poole'' \<in> set (LAD21NM ex_compound_df) \<and>
   map_of (LAD_split_dict ex_compound_df) ''Christchurch'' = Some ''Bournemouth, Christchurch and Poole'' \<and>
   map_of (lookup_dict ex_compound_df ex_ward_rows) ''Christchurch''
     = Some ''Bournemouth, Christchurch and Poole'' \<and>
   \<not> contains_str '' and '' ''Bristol, City of'' \<and> \<not> splits ''Bristol, City of'' \<and>
   map_of (LAD_split_dict ex_compound_df) ''City of'' = None \<and>
   contains_str '' and '' ''Hangleton and Knoll'' \<and>
   ''Knoll'' \<in> set (re_split ''Hangleton and Knoll'') \<and>
   map_of (ward_dict ex_ward_rows) ''Hangleton and Knoll'' = Some ''Brighton and Hove'' \<and>
   map_of (ward_split_dict (ward_dict ex_ward_rows)) ''Knoll'' = Some ''Brighton and Hove'' \<and>
   map_of (lookup_dict ex_lookup_df ex_ward_rows) ''Knoll'' = Some ''Brighton and Hove''"
proof -
  let ?bcp = "''Bournemouth, Christchurch and Poole''"
  have k1: "contains_str '' and '' ?bcp" by code_simp
  have r1: "re_split ?bcp = [''Bournemouth'', ''Christchurch'', ''Poole'']" by code_simp
  then have p1: "''Christchurch'' \<in> set (re_split ?bcp)" by simp
  have l1: "?bcp \<in> set (LAD21NM ex_compound_df)" by (simp add: ex_compound_df_def)
  have n1: "''Christchurch'' \<notin> canonical ex_compound_df"
    by (simp add: ex_compound_df_def canonical_def)
  have u1: "\<forall>l \<in> set (LAD21NM ex_compound_df).
      contains_str '' and '' l \<and> ''Christchurch'' \<in> set (re_split l) \<longrightarrow> l = ?bcp"
    by code_simp
  have w1: "map_of (ward_dict ex_ward_rows) ''Christchurch'' = None" by code_simp
  have ws1: "map_of (ward_split_dict (ward_dict ex_ward_rows)) ''Christchurch'' = None" by code_simp
  note i1 = compound_parts_aliased [of ?bcp ex_compound_df "''Christchurch''" _ ex_ward_rows]
  from i1 k1 have s1: "splits ?bcp" by blast
  from i1 p1 have f1: "\<not> contains_str '', '' ''Christchurch''" by blast
  from i1 l1 k1 p1 obtain v where v: "map_of (LAD_split_dict ex_compound_df) ''Christchurch'' = Some v"
    by blast
  from compound_parts_aliased [of _ ex_compound_df "''Christchurch''" v] v u1
  have "v = ?bcp" by blast
  with v have A: "map_of (LAD_split_dict ex_compound_df) ''Christchurch'' = Some ?bcp" by simp
  from i1 l1 k1 p1 n1 u1 w1 ws1
  have B: "map_of (lookup_dict ex_compound_df ex_ward_rows) ''Christchurch'' = Some ?bcp" by blast
  have k0: "\<not> contains_str '' and '' ''Bristol, City of''" by code_simp
  from compound_parts_aliased [of "''Bristol, City of''"] k0
  have s0: "\<not> splits ''Bristol, City of''" by blast
  have C: "map_of (LAD_split_dict ex_compound_df) ''City of'' = None"
  proof (cases "map_of (LAD_split_dict ex_compound_df) ''City of''")
    case None
    then show ?thesis .
  next
    case (Some t)
    with compound_parts_aliased [of _ ex_compound_df "''City of''" t]
    have "t \<in> set (LAD21NM ex_compound_df) \<and> contains_str '' and '' t \<and> ''City of'' \<in> set (re_split t)"
      by blast
    moreover have "\<forall>l \<in> set (LAD21NM ex_compound_df).
        \<not> (contains_str '' and '' l \<and> ''City of'' \<in> set (re_split l))" by code_simp
    ultimately show ?thesis by blast
  qed
  let ?hk = "''Hangleton and Knoll''"
  have k2: "contains_str '' and '' ?hk" by code_simp
  have p2: "''Knoll'' \<in> set (re_split ?hk)" by code_simp
  have l2: "map_of (ward_dict ex_ward_rows) ?hk = Some ''Brighton and Hove''" by code_simp
  have n2: "''Knoll'' \<notin> canonical ex_lookup_df" by (simp add: ex_lookup_df_def canonical_def)
  have u2: "\<forall>w l. map_of (ward_dict ex_ward_rows) w = Some l \<and> contains_str '' and '' w \<and>
      ''Knoll'' \<in> set (re_split w) \<longrightarrow> l = ''Brighton and Hove''"
  proof -
    have "\<not> contains_str '' and '' ''Hart''" and "\<not> contains_str '' and '' ''Hove Park''"
      by code_simp+
    then show ?thesis
      unfolding ex_ward_dict by (auto simp: ex_ward_rows_def split: if_splits)
  qed
  note i2 = compound_parts_aliased [of ?hk ex_lookup_df "''Knoll''" _ ex_ward_rows "''Brighton and Hove''"]
  from i2 l2 k2 p2 obtain v2 where v2: "map_of (ward_split_dict (ward_dict ex_ward_rows)) ''Knoll'' = Some v2"
    by blast
  from compound_parts_aliased [of _ _ "''Knoll''" v2 ex_ward_rows] v2 u2
  have "v2 = ''Brighton and Hove''" by blast
  with v2 have D: "map_of (ward_split_dict (ward_dict ex_ward_rows)) ''Knoll'' = Some ''Brighton and Hove''"
    by simp
  from i2 l2 k2 p2 n2 u2
  have E: "map_of (lookup_dict ex_lookup_df ex_ward_rows) ''Knoll'' = Some ''Brighton and Hove''"
    by blast
  from k1 s1 r1 f1 l1 A B k0 s0 C k2 p2 l2 D E show ?thesis by blast
qed

text \<open>
  Counterexample to C3 as stated: \<open>Bristol, City of\<close> is a comma-separated list of two
  parts without \<open>" and "\<close>; it is not decomposed, and its part \<open>City of\<close> is no key.
\<close>

theorem comma_list_not_split_counterexample:
  "''Bristol, City of'' \<in> set (LAD21NM ex_lookup_df) \<and>
   length (re_split ''Bristol, City of'') \<ge> 2 \<and>
   ''City of'' \<in> set (re_split ''Bristol, City of'') \<and>
   ''City of'' \<notin> canonical ex_lookup_df \<and>
   map_of (LAD_split_dict ex_lookup_df) ''City of'' = None \<and>
   map_of (lookup_dict ex_lookup_df ex_ward_rows) ''City of'' = None"
  by code_simp


subsection \<open>Canonical names\<close>

text \<open>
  Claim C4 (as amended). After construction no key of the lookup table is a canonical
  name of any level. Every finest-level name \<open>n\<close> has \<open>match n = 1\<close> and
  \<open>change_place_name n = n\<close>. Every coarser-level name that is not also a finest-level
  name has \<open>match n = 2\<close>; \<^verbatim>\<open>larger_than_LAD_set\<close> is built with \<^verbatim>\<open>- LAD_set\<close>, and
  \<^verbatim>\<open>match\<close> tests \<^verbatim>\<open>LAD_set\<close> first, so a name of both levels classifies as 1.
\<close>

theorem canonical_names_resolve:
  "(\<forall>k \<in> fst ` set (lookup_dict df rows). k \<notin> canonical df) \<and>
   (\<forall>n \<in> set (LAD21NM df).
       match (build df rows) n = Some 1 \<and> change_place_name (build df rows) n = Some n) \<and>
   (\<forall>n \<in> canonical df - set (LAD21NM df). match (build df rows) n = Some 2)"
proof (intro conjI ballI)
  fix k assume "k \<in> fst ` set (lookup_dict df rows)"
  then show "k \<notin> canonical df" by (rule keys_not_canonical)
next
  fix n assume n: "n \<in> set (LAD21NM df)"
  then show "match (build df rows) n = Some 1"
    by (intro match_LAD) (simp add: build_def LAD_set_def)
  from n have "map_of (lookup_dict df rows) n = None"
    by (simp add: map_of_lookup_dict LAD_set_def)
  moreover from n have "match (build df rows) n = Some 1"
    by (intro match_LAD) (simp add: build_def LAD_set_def)
  ultimately show "change_place_name (build df rows) n = Some n"
    by (simp add: change_place_name_def build_def)
next
  fix n assume "n \<in> canonical df - set (LAD21NM df)"
  then show "match (build df rows) n = Some 2"
    by (intro match_larger) (auto simp: build_def canonical_eq LAD_set_def)
qed

text \<open>Witness for C4 on the example hierarchy.\<close>

theorem canonical_names_resolve_witness:
  "''Brighton'' \<in> fst ` set (lookup_dict ex_lookup_df ex_ward_rows) \<and>
   ''Brighton'' \<notin> canonical ex_lookup_df \<and>
   ''Hartlepool'' \<in> set (LAD21NM ex_lookup_df) \<and>
   match (build ex_lookup_df ex_ward_rows) ''Hartlepool'' = Some 1 \<and>
   change_place_name (build ex_lookup_df ex_ward_rows) ''Hartlepool'' = Some ''Hartlepool'' \<and>
   ''North East (England)'' \<in> canonical ex_lookup_df - set (LAD21NM ex_lookup_df) \<and>
   match (build ex_lookup_df ex_ward_rows) ''North East (England)'' = Some 2"
proof -
  have k: "''Brighton'' \<in> fst ` set (lookup_dict ex_lookup_df ex_ward_rows)"
    by code_simp
  have n: "''Hartlepool'' \<in> set (LAD21NM ex_lookup_df)"
    by (simp add: ex_lookup_df_def)
  have c: "''North East (England)'' \<in> canonical ex_lookup_df - set (LAD21NM ex_lookup_df)"
    by (simp add: ex_lookup_df_def canonical_def)
  from canonical_names_resolve [of ex_lookup_df ex_ward_rows] k n c show ?thesis by blast
qed

text \<open>
  Counterexample to C4 as stated: \<open>Hartlepool\<close> is a coarser-level (LAU1) name and a
  finest-level name; it classifies as 1, not 2.
\<close>

theorem coarser_name_also_LAD_counterexample:
  "''Hartlepool'' \<in> set (LAU121NM ex_lookup_df) \<and>
   match (build ex_lookup_df ex_ward_rows) ''Hartlepool'' = Some 1 \<and>
   match (build ex_lookup_df ex_ward_rows) ''Hartlepool'' \<noteq> Some 2"
proof -
  have "''Hartlepool'' \<in> t_LAD (build ex_lookup_df ex_ward_rows)"
    by (simp add: build_def LAD_set_def ex_lookup_df_def)
  then have "match (build ex_lookup_df ex_ward_rows) ''Hartlepool'' = Some 1"
    by (rule match_LAD)
  then show ?thesis by (simp add: ex_lookup_df_def)
qed



lemma lookup_value_cases:
  assumes "map_of (lookup_dict df rows) k = Some v"
  shows "map_of manual_lookup_dict k = Some v \<or> v \<in> set (LAD21NM df) \<or> v \<in> snd ` set rows"
proof -
  from assms have
    "(map_of manual_lookup_dict ++ map_of (LAD_split_dict df) ++ map_of (ward_dict rows)
        ++ map_of (ward_split_dict (ward_dict rows))) k = Some v"
    by (simp add: map_of_lookup_dict split: if_splits)
  then consider
      (ws) "map_of (ward_split_dict (ward_dict rows)) k = Some v"
    | (wd) "map_of (ward_dict rows) k = Some v"
    | (ls) "map_of (LAD_split_dict df) k = Some v"
    | (man) "map_of manual_lookup_dict k = Some v"
    by (auto simp: map_add_Some_iff)
  then show ?thesis
  proof cases
    case ws
    then obtain w where "(w, v) \<in> set (ward_dict rows)"
      using ward_split_dict_Some by blast
    then have "map_of (rev rows) w = Some v"
      using distinct_ward_dict [of rows] by (simp add: map_of_ward_dict [symmetric])
    then have "(w, v) \<in> set (rev rows)" by (rule map_of_SomeD)
    then show ?thesis by force
  next
    case wd
    then have "map_of (rev rows) k = Some v" by (simp add: map_of_ward_dict)
    then have "(k, v) \<in> set (rev rows)" by (rule map_of_SomeD)
    then show ?thesis by force
  next
    case ls
    then show ?thesis using LAD_split_dict_Some by blast
  next
    case man
    then show ?thesis by simp
  qed
qed

lemma match_canonical:
  assumes "v \<in> canonical df"
  shows "\<exists>m\<le>2. match (build df rows) v = Some m"
proof (cases "v \<in> set (LAD21NM df)")
  case True
  then have "match (build df rows) v = Some 1"
    by (intro match_LAD) (simp add: build_def LAD_set_def)
  then show ?thesis by simp
next
  case False
  with assms have "match (build df rows) v = Some 2"
    by (intro match_larger) (auto simp: build_def canonical_eq LAD_set_def)
  then show ?thesis by simp
qed

subsection \<open>Termination of \<open>match\<close>\<close>

text \<open>
  Claim C9 (as amended). If every parent named in the ward file is a canonical name of
  the hierarchy file, \<^verbatim>\<open>match\<close> returns on every input string, with a result in
  \<open>{0, 1, 2}\<close>: an alias target is canonical, or it comes from the manual table, whose
  targets are not keys of the manual table, so the recursion follows at most two aliases.
\<close>

theorem match_terminates:
  assumes wards: "snd ` set rows \<subseteq> canonical df"
  shows "\<exists>m\<le>2. match (build df rows) s = Some m"
proof -
  let ?T = "build df rows"
  have canon: "v \<in> canonical df \<longleftrightarrow> v \<in> t_LAD ?T \<or> v \<in> t_larger ?T" for v
    by (simp add: build_def canonical_eq)
  have lk: "t_lookup ?T = lookup_dict df rows" by (simp add: build_def)
  have LADc: "set (LAD21NM df) \<subseteq> canonical df" by (auto simp: canonical_def)
  \<comment> \<open>an alias target that is not taken from the manual table is canonical\<close>
  have target: "map_of manual_lookup_dict k = Some v \<or> v \<in> canonical df"
    if "map_of (lookup_dict df rows) k = Some v" for k v
    using lookup_value_cases [OF that] wards LADc by auto
  \<comment> \<open>one alias step from a string that is not a key of the manual table\<close>
  have step1: "\<exists>m\<le>2. match ?T v = Some m" if "map_of manual_lookup_dict v = None" for v
  proof (cases "v \<in> canonical df")
    case True
    then show ?thesis by (rule match_canonical)
  next
    case False
    then have nc: "v \<notin> t_LAD ?T" "v \<notin> t_larger ?T" using canon by auto
    show ?thesis
    proof (cases "map_of (lookup_dict df rows) v")
      case None
      then have "match ?T v = Some 0" using nc by (intro match_unknown) (simp_all add: lk)
      then show ?thesis by simp
    next
      case (Some w)
      with target [of v w] that have "w \<in> canonical df" by auto
      then have "\<exists>m\<le>2. match ?T w = Some m" by (rule match_canonical)
      moreover have "match ?T v = match ?T w"
        using nc Some by (intro match_alias) (simp_all add: lk)
      ultimately show ?thesis by simp
    qed
  qed
  show ?thesis
  proof (cases "s \<in> canonical df")
    case True
    then show ?thesis by (rule match_canonical)
  next
    case False
    then have nc: "s \<notin> t_LAD ?T" "s \<notin> t_larger ?T" using canon by auto
    show ?thesis
    proof (cases "map_of (lookup_dict df rows) s")
      case None
      then have "match ?T s = Some 0" using nc by (intro match_unknown) (simp_all add: lk)
      then show ?thesis by simp
    next
      case (Some v)
      have eq: "match ?T s = match ?T v"
        using nc Some by (intro match_alias) (simp_all add: lk)
      from target [OF Some] show ?thesis
      proof
        assume "map_of manual_lookup_dict s = Some v"
        then have "map_of manual_lookup_dict v = None" by (rule manual_values_not_keys)
        then show ?thesis using step1 eq by simp
      next
        assume "v \<in> canonical df"
        then show ?thesis using match_canonical eq by simp
      qed
    qed
  qed
qed

text \<open>Witness for C9 on the example hierarchy and ward rows.\<close>

theorem match_terminates_witness:
  "snd ` set ex_ward_rows \<subseteq> canonical ex_lookup_df \<and>
   (\<exists>m\<le>2. match (build ex_lookup_df ex_ward_rows) ''Hangleton'' = Some m)"
proof -
  have h: "snd ` set ex_ward_rows \<subseteq> canonical ex_lookup_df"
    by (simp add: ex_ward_rows_def ex_lookup_df_def canonical_def)
  from h match_terminates [OF h, of "''Hangleton''"] show ?thesis by simp
qed

text \<open>
  Counterexample to C9 as stated: with the example hierarchy and ward rows whose parents
  are not in the hierarchy file, the table maps \<open>Abbey\<close> to \<open>Priory\<close> and
  \<open>Priory\<close> to \<open>Abbey\<close>, and \<^verbatim>\<open>match\<close> never returns on \<open>Abbey\<close>.
\<close>

theorem match_alias_cycle_counterexample: "match (build ex_lookup_df cyclic_ward_rows) ''Abbey'' = None"
proof -
  let ?T = "build ex_lookup_df cyclic_ward_rows"
  have nL: "''Abbey'' \<notin> t_LAD ?T" "''Priory'' \<notin> t_LAD ?T"
    and nG: "''Abbey'' \<notin> t_larger ?T" "''Priory'' \<notin> t_larger ?T"
    by (simp_all add: build_def LAD_set_def larger_than_LAD_set_def ex_lookup_df_def)
  have a: "map_of (t_lookup ?T) ''Abbey'' = Some ''Priory''"
    unfolding build_def by code_simp
  have b: "map_of (t_lookup ?T) ''Priory'' = Some ''Abbey''"
    unfolding build_def by code_simp
  have "T = ?T \<longrightarrow> \<not> (s = ''Abbey'' \<or> s = ''Priory'')" if "match T s = Some m" for T s m
  proof (rule match.raw_induct [where P = "\<lambda>T s m. T = ?T \<longrightarrow> \<not> (s = ''Abbey'' \<or> s = ''Priory'')", OF _ that])
    fix match' T s m
    assume IH: "\<And>T s m. match' T s = Some m \<Longrightarrow> T = ?T \<longrightarrow> \<not> (s = ''Abbey'' \<or> s = ''Priory'')"
      and body: "(if s \<in> t_LAD T then Some 1
          else if s \<in> t_larger T then Some 2
          else (case map_of (t_lookup T) s of Some target \<Rightarrow> match' T target | None \<Rightarrow> Some 0)) = Some m"
    show "T = ?T \<longrightarrow> \<not> (s = ''Abbey'' \<or> s = ''Priory'')"
    proof (intro impI notI)
      assume T: "T = ?T" and "s = ''Abbey'' \<or> s = ''Priory''"
      from this(2) show False
      proof
        assume s: "s = ''Abbey''"
        from body have "match' ?T ''Priory'' = Some m"
          unfolding T s using nL nG a by simp
        with IH [of ?T "''Priory''" m] show False by simp
      next
        assume s: "s = ''Priory''"
        from body have "match' ?T ''Abbey'' = Some m"
          unfolding T s using nL nG b by simp
        with IH [of ?T "''Abbey''" m] show False by simp
      qed
    qed
  qed
  then have "match ?T ''Abbey'' \<noteq> Some m" for m by blast
  then show ?thesis by (cases "match ?T ''Abbey''") auto
qed


subsection \<open>Which rows are sent to the geocoder\<close>

lemma change_place_name_total: "change_place_name T p \<noteq> None"
proof (cases "map_of (t_lookup T) p")
  case None
  then have "match T p \<noteq> None"
    by (subst match.simps) simp
  with None show ?thesis
    by (auto simp: change_place_name_def split: option.splits)
next
  case (Some t)
  then show ?thesis by (simp add: change_place_name_def)
qed

text \<open>
  Claim C7 (as amended). The loop skips a row exactly when its \<^verbatim>\<open>locality\<close>, which is
  \<open>change_place_name\<close> of the place string, is not the empty string: the geocoder is
  called for a place string if and only if \<open>change_place_name\<close> returns \<^verbatim>\<open>''\<close>. If the
  empty string itself classifies as 0, every place string sent to the geocoder has
  \<open>match (change_place_name location) = 0\<close>, so a record that classifies above 0 is never
  sent. The converse does not hold: an alias whose target is not canonical classifies as
  0 and is skipped.
\<close>

theorem geocoder_called_iff_unresolved:
  assumes "initial_row T loc = Some row"
  shows
   "(fst (geocode_row T sp get key row) = [URL loc key] \<longleftrightarrow> change_place_name T loc = Some '''') \<and>
    (fst (geocode_row T sp get key row) = [] \<longleftrightarrow> change_place_name T loc \<noteq> Some '''') \<and>
    (match T '''' = Some 0 \<longrightarrow> fst (geocode_row T sp get key row) \<noteq> [] \<longrightarrow>
       Option.bind (change_place_name T loc) (match T) = Some 0)"
  using assms by (auto simp: geocode_row_def initial_row_def)

text \<open>Witness for C7: a place string that the tables do not know.\<close>

theorem geocoder_called_iff_unresolved_witness:
  "initial_row (build ex_lookup_df ex_ward_rows) ''Atlantis''
     = Some \<lparr>location = ''Atlantis'', locality = '''', bbox = None\<rparr> \<and>
   match (build ex_lookup_df ex_ward_rows) '''' = Some 0 \<and>
   change_place_name (build ex_lookup_df ex_ward_rows) ''Atlantis'' = Some '''' \<and>
   fst (geocode_row (build ex_lookup_df ex_ward_rows) [] (\<lambda>u. Inl ConnectionError) ''key''
          \<lparr>location = ''Atlantis'', locality = '''', bbox = None\<rparr>) = [URL ''Atlantis'' ''key''] \<and>
   Option.bind (change_place_name (build ex_lookup_df ex_ward_rows) ''Atlantis'')
      (match (build ex_lookup_df ex_ward_rows)) = Some 0"
proof -
  let ?T = "build ex_lookup_df ex_ward_rows"
  let ?row = "\<lparr>location = ''Atlantis'', locality = '''', bbox = None\<rparr>"
  have c: "change_place_name ?T ''Atlantis'' = Some ''''" by code_simp
  then have r: "initial_row ?T ''Atlantis'' = Some ?row" by (simp add: initial_row_def)
  have m: "match ?T '''' = Some 0" by code_simp
  note inst = geocoder_called_iff_unresolved [OF r, of "[]" "\<lambda>u. Inl ConnectionError" "''key''"]
  from inst c have u: "fst (geocode_row ?T [] (\<lambda>u. Inl ConnectionError) ''key'' ?row) = [URL ''Atlantis'' ''key'']"
    by blast
  with inst m have "Option.bind (change_place_name ?T ''Atlantis'') (match ?T) = Some 0"
    by (metis list.distinct(1))
  with r m c u show ?thesis by blast
qed

text \<open>
  Counterexample to C7 as stated: \<open>Saint Helier\<close> is an alias of \<open>Jersey\<close>, which is
  no canonical name; \<open>match (change_place_name location)\<close> is 0 and the geocoder is not
  called.
\<close>

theorem alias_to_unknown_skipped_counterexample:
  "initial_row (build ex_lookup_df ex_ward_rows) ''Saint Helier''
     = Some \<lparr>location = ''Saint Helier'', locality = ''Jersey'', bbox = None\<rparr> \<and>
   Option.bind (change_place_name (build ex_lookup_df ex_ward_rows) ''Saint Helier'')
      (match (build ex_lookup_df ex_ward_rows)) = Some 0 \<and>
   fst (geocode_row (build ex_lookup_df ex_ward_rows) [] (\<lambda>u. Inl ConnectionError) ''key''
          \<lparr>location = ''Saint Helier'', locality = ''Jersey'', bbox = None\<rparr>) = []"
proof -
  let ?T = "build ex_lookup_df ex_ward_rows"
  have c: "change_place_name ?T ''Saint Helier'' = Some ''Jersey''" by code_simp
  have m: "match ?T ''Jersey'' = Some 0" by code_simp
  from c m show ?thesis by (simp add: initial_row_def geocode_row_def)
qed


subsection \<open>Failures of a geocoding request\<close>

lemma geocode_loop_Cons_Inr:
  "geocode_row T sp get key row = (urls, Inr row') \<Longrightarrow>
   geocode_loop T sp get key (row # rows) =
     (urls @ fst (geocode_loop T sp get key rows),
      map_sum id (Cons row') (snd (geocode_loop T sp get key rows)))"
  by (cases "geocode_loop T sp get key rows") (auto split: sum.splits)

lemma geocode_loop_Cons_Inl:
  "geocode_row T sp get key row = (urls, Inl e) \<Longrightarrow>
   geocode_loop T sp get key (row # rows) = (urls, Inl e)"
  by simp

text \<open>
  Claim C8 (as amended). For a row that is sent to the geocoder (its \<^verbatim>\<open>locality\<close> is
  \<^verbatim>\<open>''\<close>): a response with a status other than 200, or with \<^verbatim>\<open>estimatedTotal\<close> 0, leaves
  the row as it is and the loop goes on with the remaining rows. An exception raised by
  \<^verbatim>\<open>requests.get\<close> leaves the loop at this row, and so does the \<^verbatim>\<open>KeyError\<close> of an
  address that has neither a \<^verbatim>\<open>locality\<close> nor a \<^verbatim>\<open>formattedAddress\<close>: the call is not
  inside any \<^verbatim>\<open>try\<close>, and the \<^verbatim>\<open>except\<close> branch reads \<^verbatim>\<open>formattedAddress\<close> unguarded.
\<close>

theorem geocoding_failures:
  assumes "locality row = ''''"
  shows
   "(get (URL (location row) key) = Inr resp \<and>
        (status_code resp \<noteq> 200 \<or> estimatedTotal resp = 0) \<longrightarrow>
        geocode_row T sp get key row = ([URL (location row) key], Inr row) \<and>
        geocode_loop T sp get key (row # rows) =
          (URL (location row) key # fst (geocode_loop T sp get key rows),
           map_sum id (Cons row) (snd (geocode_loop T sp get key rows)))) \<and>
    (get (URL (location row) key) = Inl e \<longrightarrow>
        geocode_loop T sp get key (row # rows) = ([URL (location row) key], Inl e)) \<and>
    (get (URL (location row) key) = Inr resp \<and> status_code resp = 200 \<and>
        estimatedTotal resp \<noteq> 0 \<and> resources resp = res # rest \<and>
        res_address res = Address None None \<longrightarrow>
        geocode_loop T sp get key (row # rows) = ([URL (location row) key], Inl KeyError))"
proof (intro conjI impI)
  assume a: "get (URL (location row) key) = Inr resp \<and> (status_code resp \<noteq> 200 \<or> estimatedTotal resp = 0)"
  with assms show r: "geocode_row T sp get key row = ([URL (location row) key], Inr row)"
    by (auto simp: geocode_row_def bind_err_def handle_response_def)
  from geocode_loop_Cons_Inr [OF r]
  show "geocode_loop T sp get key (row # rows) =
          (URL (location row) key # fst (geocode_loop T sp get key rows),
           map_sum id (Cons row) (snd (geocode_loop T sp get key rows)))"
    by simp
next
  assume "get (URL (location row) key) = Inl e"
  with assms have "geocode_row T sp get key row = ([URL (location row) key], Inl e)"
    by (simp add: geocode_row_def bind_err_def)
  then show "geocode_loop T sp get key (row # rows) = ([URL (location row) key], Inl e)"
    by (rule geocode_loop_Cons_Inl)
next
  assume a: "get (URL (location row) key) = Inr resp \<and> status_code resp = 200 \<and>
        estimatedTotal resp \<noteq> 0 \<and> resources resp = res # rest \<and>
        res_address res = Address None None"
  with assms have "geocode_row T sp get key row = ([URL (location row) key], Inl KeyError)"
    by (simp add: geocode_row_def bind_err_def handle_response_def first_candidate_def
        formatted_tokens_def)
  then show "geocode_loop T sp get key (row # rows) = ([URL (location row) key], Inl KeyError)"
    by (rule geocode_loop_Cons_Inl)
qed

text \<open>Witness for C8: the three services on the example rows.\<close>

theorem geocoding_failures_witness:
  "locality (hd ex_rows) = '''' \<and>
   get_404 (URL (location (hd ex_rows)) ''key'') = Inr (Response 404 0 []) \<and>
   geocode_loop (build ex_lookup_df ex_ward_rows) [] get_404 ''key'' ex_rows
     = ([URL ''Atlantis'' ''key''], Inr ex_rows) \<and>
   get_down (URL (location (hd ex_rows)) ''key'') = Inl ConnectionError \<and>
   geocode_loop (build ex_lookup_df ex_ward_rows) [] get_down ''key'' ex_rows
     = ([URL ''Atlantis'' ''key''], Inl ConnectionError) \<and>
   get_no_address (URL (location (hd ex_rows)) ''key'')
     = Inr (Response 200 1 [Resource (Address None None) [54, -2, 55, -1]]) \<and>
   geocode_loop (build ex_lookup_df ex_ward_rows) [] get_no_address ''key'' ex_rows
     = ([URL ''Atlantis'' ''key''], Inl KeyError)"
proof -
  let ?T = "build ex_lookup_df ex_ward_rows"
  let ?r1 = "\<lparr>location = ''Atlantis'', locality = '''', bbox = None\<rparr>"
  let ?r2 = "\<lparr>location = ''Hart'', locality = ''Hartlepool'', bbox = None\<rparr>"
  have rows: "ex_rows = [?r1, ?r2]" by (simp add: ex_rows_def)
  have l: "locality ?r1 = ''''" by simp
  have g1: "get_404 (URL (location ?r1) ''key'') = Inr (Response 404 0 [])"
    by (simp add: get_404_def)
  have g2: "get_down (URL (location ?r1) ''key'') = Inl ConnectionError"
    by (simp add: get_down_def)
  have g3: "get_no_address (URL (location ?r1) ''key'')
     = Inr (Response 200 1 [Resource (Address None None) [54, -2, 55, -1]])"
    by (simp add: get_no_address_def)
  have rest: "geocode_loop ?T [] get_404 ''key'' [?r2] = ([], Inr [?r2])"
    by (simp add: geocode_row_def)
  from geocoding_failures [OF l, of get_404 "''key''" "Response 404 0 []" ?T "[]" "[?r2]"] g1 rest
  have A: "geocode_loop ?T [] get_404 ''key'' [?r1, ?r2] = ([URL ''Atlantis'' ''key''], Inr [?r1, ?r2])"
    by simp
  from geocoding_failures [OF l, of get_down "''key''" _ ?T "[]" "[?r2]" ConnectionError] g2
  have B: "geocode_loop ?T [] get_down ''key'' [?r1, ?r2] = ([URL ''Atlantis'' ''key''], Inl ConnectionError)"
    by simp
  from geocoding_failures [OF l, of get_no_address "''key''" "Response 200 1 [Resource (Address None None) [54, -2, 55, -1]]"
      ?T "[]" "[?r2]" _ "Resource (Address None None) [54, -2, 55, -1]" "[]"] g3
  have C: "geocode_loop ?T [] get_no_address ''key'' [?r1, ?r2] = ([URL ''Atlantis'' ''key''], Inl KeyError)"
    by simp
  from l g1 g2 g3 A B C show ?thesis unfolding rows by simp
qed

text \<open>
  Counterexample to C8 as stated: when the service cannot be reached, the loop ends with
  the exception at the first row that it sends.
\<close>

theorem network_error_raised_counterexample:
  "locality (hd ex_rows) = '''' \<and>
   snd (geocode_loop (build ex_lookup_df ex_ward_rows) [] get_down ''key'' ex_rows)
     = Inl ConnectionError"
  by (simp add: ex_rows_def geocode_row_def get_down_def bind_err_def)


subsection \<open>The decision of \<open>IOU\<close>\<close>

lemma intersecting_ok:
  assumes "\<forall>(n, g) \<in> set LAD. intersects ops g b \<noteq> None"
  shows "intersecting ops b LAD = Some (filter (\<lambda>(n, g). intersects ops g b = Some True) LAD)"
  using assms by (induction LAD) (auto split: option.splits)

lemma areas_ok:
  assumes "\<forall>(n, g) \<in> set rows. inter_area ops g b \<noteq> None"
  shows "\<exists>ia. areas ops b rows = Some ia \<and>
           (\<forall>n a. (n, a) \<in> set ia \<longleftrightarrow> (\<exists>g. (n, g) \<in> set rows \<and> inter_area ops g b = Some a))"
  using assms
proof (induction rows)
  case Nil
  show ?case by simp
next
  case (Cons x rows)
  obtain n g where x: "x = (n, g)" by (cases x)
  from Cons.prems obtain a where a: "inter_area ops g b = Some a" by (auto simp: x)
  from Cons obtain ia where ia: "areas ops b rows = Some ia"
    "\<forall>n a. (n, a) \<in> set ia \<longleftrightarrow> (\<exists>g. (n, g) \<in> set rows \<and> inter_area ops g b = Some a)"
    by auto
  have "areas ops b (x # rows) = Some ((n, a) # ia)" by (simp add: x a ia)
  moreover have "\<forall>n' a'. (n', a') \<in> set ((n, a) # ia) \<longleftrightarrow>
      (\<exists>g'. (n', g') \<in> set (x # rows) \<and> inter_area ops g' b = Some a')"
    using ia(2) a by (auto simp: x)
  ultimately show ?case by blast
qed

lemma idxmax_None: "idxmax rows = None \<longleftrightarrow> rows = []"
  by (induction rows rule: idxmax.induct) (auto split: option.splits)

lemma idxmax_Some:
  assumes "idxmax rows = Some (n, r)"
  shows "(n, r) \<in> set rows \<and> (\<forall>(n', r') \<in> set rows. r' \<le> r)"
  using assms
proof (induction rows arbitrary: n r rule: idxmax.induct)
  case 1
  then show ?case by simp
next
  case (2 n0 r0 rows)
  show ?case
  proof (cases "idxmax rows")
    case None
    then have "rows = []" by (simp add: idxmax_None)
    with 2 None show ?thesis by auto
  next
    case (Some p)
    obtain n' r' where p: "p = (n', r')" by (cases p)
    from 2(1) [of n' r'] Some p
    have IH: "(n', r') \<in> set rows" "\<forall>(m, s) \<in> set rows. s \<le> r'" by auto
    show ?thesis
    proof (cases "r' > r0")
      case True
      with 2(2) Some p have "n = n'" "r = r'" by auto
      with IH True show ?thesis by auto
    next
      case False
      with 2(2) Some p have "n = n0" "r = r0" by auto
      with IH False show ?thesis by fastforce
    qed
  qed
qed

text \<open>
  Claim C6. \<^verbatim>\<open>IOU\<close> returns \<^verbatim>\<open>''\<close> when the coordinates are missing and when the
  vertical span \<open>y2 - y1\<close> exceeds 2. Otherwise, for a box of positive area on which no
  geometry call raises: if some intersecting unit has a ratio
  \<open>area(unit \<inter> box) / area(box)\<close> above 0.6, the result is the name of an intersecting
  unit whose ratio is the maximum and exceeds 0.6; if no intersecting unit has a ratio
  above 0.6, the result is \<^verbatim>\<open>''\<close>; and a box whose whole area lies in a unit, and which
  no unit of another name intersects, resolves to that unit.
\<close>

theorem IOU_decision:
  assumes ok: "\<forall>(n, g) \<in> set LAD. intersects ops g (x1, y1, x2, y2) \<noteq> None \<and>
                  inter_area ops g (x1, y1, x2, y2) \<noteq> None"
    and span: "\<not> y2 - y1 > 2"
    and area: "box_area (x1, y1, x2, y2) \<noteq> 0"
  shows
   "IOU ops LAD None = '''' \<and>
    (\<forall>v1 u1 v2 u2. v2 - v1 > 2 \<longrightarrow> IOU ops LAD (Some (v1, u1, v2, u2)) = '''') \<and>
    ((\<exists>(n, g) \<in> set LAD. \<exists>a. intersects ops g (x1, y1, x2, y2) = Some True \<and>
          inter_area ops g (x1, y1, x2, y2) = Some a \<and> a / box_area (x1, y1, x2, y2) > 0.6) \<longrightarrow>
       (\<exists>g a. (IOU ops LAD (Some (y1, x1, y2, x2)), g) \<in> set LAD \<and>
          intersects ops g (x1, y1, x2, y2) = Some True \<and>
          inter_area ops g (x1, y1, x2, y2) = Some a \<and>
          a / box_area (x1, y1, x2, y2) > 0.6 \<and>
          (\<forall>(n', g') \<in> set LAD. \<forall>a'. intersects ops g' (x1, y1, x2, y2) = Some True \<and>
              inter_area ops g' (x1, y1, x2, y2) = Some a' \<longrightarrow>
              a' / box_area (x1, y1, x2, y2) \<le> a / box_area (x1, y1, x2, y2)))) \<and>
    ((\<forall>(n, g) \<in> set LAD. \<forall>a. intersects ops g (x1, y1, x2, y2) = Some True \<and>
          inter_area ops g (x1, y1, x2, y2) = Some a \<longrightarrow> a / box_area (x1, y1, x2, y2) \<le> 0.6) \<longrightarrow>
       IOU ops LAD (Some (y1, x1, y2, x2)) = '''') \<and>
    (\<forall>n g. (n, g) \<in> set LAD \<and> intersects ops g (x1, y1, x2, y2) = Some True \<and>
          inter_area ops g (x1, y1, x2, y2) = Some (box_area (x1, y1, x2, y2)) \<and>
          (\<forall>(n', g') \<in> set LAD. intersects ops g' (x1, y1, x2, y2) = Some True \<longrightarrow> n' = n) \<longrightarrow>
       IOU ops LAD (Some (y1, x1, y2, x2)) = n)"
proof -
  let ?b = "(x1, y1, x2, y2)"
  let ?A = "box_area ?b"
  let ?temp = "filter (\<lambda>(n, g). intersects ops g ?b = Some True) LAD"
  have t: "intersecting ops ?b LAD = Some ?temp"
    using ok by (intro intersecting_ok) auto
  have "\<forall>(n, g) \<in> set ?temp. inter_area ops g ?b \<noteq> None" using ok by auto
  from areas_ok [OF this] obtain ia where ia: "areas ops ?b ?temp = Some ia"
    and ia_iff: "\<And>n a. (n, a) \<in> set ia \<longleftrightarrow>
        (\<exists>g. (n, g) \<in> set LAD \<and> intersects ops g ?b = Some True \<and> inter_area ops g ?b = Some a)"
    by auto
  let ?ratios = "map (\<lambda>(n, a). (n, a / ?A)) ia"
  have res: "IOU ops LAD (Some (y1, x1, y2, x2)) =
      (case idxmax ?ratios of None \<Rightarrow> '''' | Some (n, r) \<Rightarrow> if r > 0.6 then n else '''')"
    using span area by (simp add: IOU_def t ia)
  have ratios_iff: "(n, r) \<in> set ?ratios \<longleftrightarrow>
      (\<exists>g a. (n, g) \<in> set LAD \<and> intersects ops g ?b = Some True \<and> inter_area ops g ?b = Some a \<and> r = a / ?A)"
    for n r
  proof
    assume "(n, r) \<in> set ?ratios"
    then obtain a where "(n, a) \<in> set ia" "r = a / ?A" by auto
    with ia_iff [of n a] show "\<exists>g a. (n, g) \<in> set LAD \<and> intersects ops g ?b = Some True \<and>
        inter_area ops g ?b = Some a \<and> r = a / ?A" by blast
  next
    assume "\<exists>g a. (n, g) \<in> set LAD \<and> intersects ops g ?b = Some True \<and>
        inter_area ops g ?b = Some a \<and> r = a / ?A"
    then obtain g a where "(n, g) \<in> set LAD" "intersects ops g ?b = Some True"
        "inter_area ops g ?b = Some a" and r: "r = a / ?A" by blast
    with ia_iff [of n a] have "(n, a) \<in> set ia" by blast
    then have "(\<lambda>(n, a). (n, a / ?A)) (n, a) \<in> set ?ratios" unfolding set_map by (rule imageI)
    then show "(n, r) \<in> set ?ratios" by (simp add: r)
  qed
  have c1: "IOU ops LAD None = ''''" by (simp add: IOU_def)
  have c2: "\<forall>v1 u1 v2 u2. v2 - v1 > 2 \<longrightarrow> IOU ops LAD (Some (v1, u1, v2, u2)) = ''''"
    by (simp add: IOU_def)
  have c3: "\<exists>g a. (IOU ops LAD (Some (y1, x1, y2, x2)), g) \<in> set LAD \<and>
          intersects ops g ?b = Some True \<and> inter_area ops g ?b = Some a \<and> a / ?A > 0.6 \<and>
          (\<forall>(n', g') \<in> set LAD. \<forall>a'. intersects ops g' ?b = Some True \<and>
              inter_area ops g' ?b = Some a' \<longrightarrow> a' / ?A \<le> a / ?A)"
    if ex: "\<exists>(n, g) \<in> set LAD. \<exists>a. intersects ops g ?b = Some True \<and>
          inter_area ops g ?b = Some a \<and> a / ?A > 0.6"
  proof -
    from ex obtain n0 g0 a0 where u: "(n0, g0) \<in> set LAD" "intersects ops g0 ?b = Some True"
      "inter_area ops g0 ?b = Some a0" "a0 / ?A > 0.6" by auto
    then have in0: "(n0, a0 / ?A) \<in> set ?ratios" using ratios_iff by blast
    then have "idxmax ?ratios \<noteq> None" by (auto simp: idxmax_None)
    then obtain n r where m: "idxmax ?ratios = Some (n, r)" by (cases "idxmax ?ratios") auto
    from idxmax_Some [OF m] have mem: "(n, r) \<in> set ?ratios"
      and mx: "\<And>n' r'. (n', r') \<in> set ?ratios \<Longrightarrow> r' \<le> r" by auto
    from u(4) mx [OF in0] have r: "r > 0.6" by (rule less_le_trans)
    with res m have out: "IOU ops LAD (Some (y1, x1, y2, x2)) = n" by simp
    from mem ratios_iff obtain g a where ga: "(n, g) \<in> set LAD" "intersects ops g ?b = Some True"
      "inter_area ops g ?b = Some a" "r = a / ?A" by blast
    have "\<forall>(n', g') \<in> set LAD. \<forall>a'. intersects ops g' ?b = Some True \<and>
              inter_area ops g' ?b = Some a' \<longrightarrow> a' / ?A \<le> a / ?A"
    proof (intro ballI, clarify)
      fix n' g' a'
      assume "(n', g') \<in> set LAD" "intersects ops g' ?b = Some True" "inter_area ops g' ?b = Some a'"
      then have "(n', a' / ?A) \<in> set ?ratios" using ratios_iff by blast
      from mx [OF this] show "a' / ?A \<le> a / ?A" unfolding ga(4) .
    qed
    with out ga r show ?thesis by blast
  qed
  have c4: "IOU ops LAD (Some (y1, x1, y2, x2)) = ''''"
    if all: "\<forall>(n, g) \<in> set LAD. \<forall>a. intersects ops g ?b = Some True \<and>
          inter_area ops g ?b = Some a \<longrightarrow> a / ?A \<le> 0.6"
  proof (cases "idxmax ?ratios")
    case None
    with res show ?thesis by simp
  next
    case (Some p)
    obtain n r where p: "p = (n, r)" by (cases p)
    from idxmax_Some [of ?ratios n r] Some p have "(n, r) \<in> set ?ratios" by simp
    with ratios_iff obtain g a where ga: "(n, g) \<in> set LAD" "intersects ops g ?b = Some True"
      "inter_area ops g ?b = Some a" "r = a / ?A" by blast
    from all ga(1-3) have "a / ?A \<le> 0.6" by blast
    then have "r \<le> 0.6" unfolding ga(4) .
    with res Some p show ?thesis by simp
  qed
  have c5: "IOU ops LAD (Some (y1, x1, y2, x2)) = n"
    if one: "(n, g) \<in> set LAD \<and> intersects ops g ?b = Some True \<and>
          inter_area ops g ?b = Some ?A \<and>
          (\<forall>(n', g') \<in> set LAD. intersects ops g' ?b = Some True \<longrightarrow> n' = n)" for n g
  proof -
    have "?A / ?A > 0.6" using area by simp
    with one have "\<exists>(n, g) \<in> set LAD. \<exists>a. intersects ops g ?b = Some True \<and>
          inter_area ops g ?b = Some a \<and> a / ?A > 0.6" by blast
    from c3 [OF this] obtain g' where "(IOU ops LAD (Some (y1, x1, y2, x2)), g') \<in> set LAD"
      "intersects ops g' ?b = Some True" by blast
    with one show ?thesis by blast
  qed
  from c1 c2 c3 c4 c5 show ?thesis by blast
qed

text \<open>
  Witness for C6 with rectangular units: a box inside \<open>Hartlepool\<close>, a box shared half
  and half by the two units, a box that is too tall, and a missing box.
\<close>

theorem IOU_decision_witness:
  "\<not> (2::real) - 1 > 2 \<and> box_area (1, 1, 2, 2) \<noteq> 0 \<and>
   (''Hartlepool'', (0, 0, 10, 10)) \<in> set ex_LAD \<and>
   intersects rect_ops (0, 0, 10, 10) (1, 1, 2, 2) = Some True \<and>
   inter_area rect_ops (0, 0, 10, 10) (1, 1, 2, 2) = Some (box_area (1, 1, 2, 2)) \<and>
   IOU rect_ops ex_LAD (Some (1, 1, 2, 2)) = ''Hartlepool'' \<and>
   IOU rect_ops ex_LAD (Some (1, 8, 2, 12)) = '''' \<and>
   IOU rect_ops ex_LAD (Some (1, 1, 4, 2)) = '''' \<and>
   IOU rect_ops ex_LAD None = ''''"
proof -
  have ok1: "\<forall>(n, g) \<in> set ex_LAD. intersects rect_ops g (1, 1, 2, 2) \<noteq> None \<and>
       inter_area rect_ops g (1, 1, 2, 2) \<noteq> None"
    by (simp add: rect_ops_def split: prod.splits)
  have span1: "\<not> (2::real) - 1 > 2" by simp
  have area1: "box_area (1, 1, 2, 2) \<noteq> 0" by (simp add: box_area_def)
  have m: "(''Hartlepool'', (0, 0, 10, 10)) \<in> set ex_LAD" by (simp add: ex_LAD_def)
  have i: "intersects rect_ops (0, 0, 10, 10) (1, 1, 2, 2) = Some True"
    by (simp add: rect_ops_def rect_overlap_def)
  have a: "inter_area rect_ops (0, 0, 10, 10) (1, 1, 2, 2) = Some (box_area (1, 1, 2, 2))"
    by (simp add: rect_ops_def rect_overlap_def box_area_def)
  have only: "\<forall>(n', g') \<in> set ex_LAD. intersects rect_ops g' (1, 1, 2, 2) = Some True \<longrightarrow> n' = ''Hartlepool''"
    by (simp add: ex_LAD_def rect_ops_def rect_overlap_def)
  note inst1 = IOU_decision [of ex_LAD rect_ops 1 1 2 2, OF ok1 span1 area1]
  from inst1 m i a only have A: "IOU rect_ops ex_LAD (Some (1, 1, 2, 2)) = ''Hartlepool''"
    by blast
  from inst1 have N: "IOU rect_ops ex_LAD None = ''''" by blast
  have "(4::real) - 1 > 2" by simp
  with inst1 have S: "IOU rect_ops ex_LAD (Some (1, 1, 4, 2)) = ''''" by blast
  have ok2: "\<forall>(n, g) \<in> set ex_LAD. intersects rect_ops g (8, 1, 12, 2) \<noteq> None \<and>
       inter_area rect_ops g (8, 1, 12, 2) \<noteq> None"
    by (simp add: rect_ops_def split: prod.splits)
  have area2: "box_area (8, 1, 12, 2) \<noteq> 0" by (simp add: box_area_def)
  have low: "\<forall>(n, g) \<in> set ex_LAD. \<forall>a. intersects rect_ops g (8, 1, 12, 2) = Some True \<and>
          inter_area rect_ops g (8, 1, 12, 2) = Some a \<longrightarrow> a / box_area (8, 1, 12, 2) \<le> 0.6"
    by (auto simp: ex_LAD_def rect_ops_def rect_overlap_def box_area_def)
  note inst2 = IOU_decision [of ex_LAD rect_ops 8 1 12 2, OF ok2 span1 area2]
  from inst2 low have B: "IOU rect_ops ex_LAD (Some (1, 8, 2, 12)) = ''''" by blast
  from span1 area1 m i a A B S N show ?thesis by blast
qed


section \<open>User localization: the tables of the pipeline\<close>

lemma set_drop_duplicates: "set (drop_duplicates xs) = set xs"
  by (simp add: drop_duplicates_def)

lemma distinct_drop_duplicates: "distinct (drop_duplicates xs)"
  by (simp add: drop_duplicates_def)

lemma value_counts_mem:
  "(x, c) \<in> set (value_counts xs) \<longleftrightarrow> x \<in> set xs \<and> c = count_list xs x"
  by (auto simp: value_counts_def set_drop_duplicates)

lemma mset_value_counts:
  "mset (value_counts xs) = mset (map (\<lambda>x. (x, count_list xs x)) (drop_duplicates xs))"
  by (simp add: value_counts_def)

lemma distinct_value_counts: "distinct (map fst (value_counts xs))"
proof -
  let ?g = "\<lambda>x. (x, count_list xs x)"
  have "mset (map fst (value_counts xs)) = image_mset fst (mset (value_counts xs))"
    by (rule mset_map)
  also have "\<dots> = image_mset fst (mset (map ?g (drop_duplicates xs)))"
    by (simp only: mset_value_counts)
  also have "\<dots> = mset (map fst (map ?g (drop_duplicates xs)))"
    by (rule mset_map [symmetric])
  also have "map fst (map ?g (drop_duplicates xs)) = drop_duplicates xs"
    by (simp add: comp_def)
  finally have "mset (map fst (value_counts xs)) = mset (drop_duplicates xs)" .
  then show ?thesis
    using distinct_drop_duplicates [of xs] mset_eq_imp_distinct_iff by blast
qed

lemma sorted_value_counts: "sorted_wrt (\<lambda>a b. snd b \<le> snd a) (value_counts xs)"
proof -
  have "sorted (map (\<lambda>(x, c). - int c) (value_counts xs))"
    unfolding value_counts_def by (rule sorted_sort_key)
  then have "sorted_wrt (\<lambda>a b. (case a of (x, c) \<Rightarrow> - int c) \<le> (case b of (x, c) \<Rightarrow> - int c)) (value_counts xs)"
    by (simp add: sorted_map)
  then show ?thesis
    by (rule sorted_wrt_mono_rel [rotated]) (auto split: prod.splits)
qed

lemma sum_count_list_filter:
  "(\<Sum>x \<in> {x \<in> set xs. Q x}. count_list xs x) = length (filter Q xs)"
proof -
  have "length (filter Q xs) = size (filter_mset Q (mset xs))"
    by (simp add: mset_filter [symmetric] del: mset_filter)
  also have "\<dots> = (\<Sum>x \<in> set_mset (filter_mset Q (mset xs)). count (filter_mset Q (mset xs)) x)"
    by (rule size_multiset_overloaded_eq)
  also have "\<dots> = (\<Sum>x \<in> {x \<in> set xs. Q x}. count_list xs x)"
    by (rule sum.cong) (auto simp: count_mset)
  finally show ?thesis by simp
qed

lemma count_list_fst:
  "count_list (map fst xs) u = length (filter (\<lambda>p. fst p = u) xs)"
  by (induction xs) auto

lemma sum_list_filter_mset_cong:
  assumes "mset xs = mset ys"
  shows "sum_list (map f (filter Q xs)) = sum_list (map (f :: 'a \<Rightarrow> nat) (filter Q ys))"
proof -
  have "mset (map f (filter Q xs)) = mset (map f (filter Q ys))"
    using assms by (metis mset_filter mset_map)
  then show ?thesis by (metis sum_mset_sum_list)
qed

lemma sum_value_counts_user:
  "sum_list (map snd (filter (\<lambda>((u', l), c). u' = u) (value_counts tw)))
     = count_list (map fst tw) u"
proof -
  let ?Q = "\<lambda>((u', l), c). u' = u"
  let ?g = "\<lambda>x. (x, count_list tw x)"
  let ?ds = "drop_duplicates tw"
  have "sum_list (map snd (filter ?Q (value_counts tw)))
      = sum_list (map snd (filter ?Q (map ?g ?ds)))"
    by (rule sum_list_filter_mset_cong) (rule mset_value_counts)
  also have "\<dots> = sum_list (map (count_list tw) (filter (\<lambda>x. fst x = u) ?ds))"
    by (simp add: filter_map comp_def case_prod_beta)
  also have "\<dots> = (\<Sum>x \<in> set (filter (\<lambda>x. fst x = u) ?ds). count_list tw x)"
    by (rule sum_list_distinct_conv_sum_set) (simp add: distinct_drop_duplicates)
  also have "\<dots> = (\<Sum>x \<in> {x \<in> set tw. fst x = u}. count_list tw x)"
    by (rule sum.cong) (auto simp: set_drop_duplicates)
  also have "\<dots> = length (filter (\<lambda>x. fst x = u) tw)"
    by (rule sum_count_list_filter)
  finally show ?thesis by (simp add: count_list_fst)
qed

lemma filter_key_distinct:
  "distinct (map fst R) \<Longrightarrow>
   filter (\<lambda>(k', b). k' = k) R = (case map_of R k of None \<Rightarrow> [] | Some b \<Rightarrow> [(k, b)])"
proof (induction R)
  case Nil
  show ?case by simp
next
  case (Cons x R)
  obtain k' b where x: "x = (k', b)" by (cases x)
  show ?case
  proof (cases "k' = k")
    case True
    with Cons.prems x have "map_of R k = None" by (simp add: map_of_eq_None_iff)
    with Cons True x show ?thesis by simp
  next
    case False
    with Cons x show ?thesis by simp
  qed
qed

lemma merge_left_distinct:
  assumes "distinct (map fst R)"
  shows "merge_left L R = map (\<lambda>(k, a). (k, a, map_of R k)) L"
proof -
  have "(case filter (\<lambda>(k', b). k' = k) R of [] \<Rightarrow> [(k, a, None)]
          | ms \<Rightarrow> map (\<lambda>(k', b). (k, a, Some b)) ms) = [(k, a, map_of R k)]" for k and a :: 'c
    by (simp add: filter_key_distinct [OF assms] split: option.splits)
  then show ?thesis
    unfolding merge_left_def by (induction L) auto
qed

lemma merge_left_single:
  assumes "\<forall>(k, a) \<in> set L. \<exists>b. filter (\<lambda>(k', b). k' = k) R = [(k, b)]"
  shows "merge_left L R = map (\<lambda>(k, a). (k, a, Some (snd (hd (filter (\<lambda>(k', b). k' = k) R))))) L"
  using assms unfolding merge_left_def by (induction L) auto

lemma filter_user_single:
  assumes "count_list (map fst P) u = 1"
  shows "\<exists>l. filter (\<lambda>(k', b). k' = u) P = [(u, l)]"
proof -
  have "length (filter (\<lambda>p. fst p = u) P) = 1"
    using assms by (simp add: count_list_fst)
  then obtain p where p: "filter (\<lambda>p. fst p = u) P = [p]"
    by (cases "filter (\<lambda>p. fst p = u) P") auto
  then have "p \<in> set (filter (\<lambda>p. fst p = u) P)" by simp
  then have "fst p = u" by simp
  with p have "filter (\<lambda>p. fst p = u) P = [(u, snd p)]" by (cases p) simp
  then show ?thesis by (simp add: case_prod_unfold)
qed

lemma filter_user_one_locality:
  assumes "distinct P"
  shows "filter (\<lambda>(k', b). k' = u) P = [(u, l)] \<longleftrightarrow>
           (u, l) \<in> set P \<and> (\<forall>l'. (u, l') \<in> set P \<longrightarrow> l' = l)"
proof
  assume f: "filter (\<lambda>(k', b). k' = u) P = [(u, l)]"
  have "set (filter (\<lambda>(k', b). k' = u) P) = {(u, l)}" by (simp add: f)
  then show "(u, l) \<in> set P \<and> (\<forall>l'. (u, l') \<in> set P \<longrightarrow> l' = l)" by auto
next
  assume a: "(u, l) \<in> set P \<and> (\<forall>l'. (u, l') \<in> set P \<longrightarrow> l' = l)"
  let ?F = "filter (\<lambda>(k', b). k' = u) P"
  have d: "distinct ?F" using assms by simp
  have s: "set ?F = {(u, l)}" using a by auto
  from d s have "length ?F = 1" by (metis distinct_card card_1_singleton_iff One_nat_def)
  then obtain p where "?F = [p]" by (cases ?F) auto
  with s show "?F = [(u, l)]" by auto
qed

lemma user_oneloc_eq:
  "user_oneloc tw =
     map (\<lambda>(u, c). (u, Some (snd (hd (filter (\<lambda>(k', b). k' = u) (drop_duplicates tw))))))
       (filter (\<lambda>(u, c). c = 1) (value_counts (map fst (drop_duplicates tw))))"
proof -
  let ?P = "drop_duplicates tw"
  let ?C = "filter (\<lambda>(u, c). c = 1) (value_counts (map fst ?P))"
  have "\<forall>(k, a) \<in> set ?C. \<exists>b. filter (\<lambda>(k', b). k' = k) ?P = [(k, b)]"
    by (auto simp: value_counts_mem intro!: filter_user_single)
  from merge_left_single [OF this] show ?thesis
    unfolding user_oneloc_def Let_def by (simp add: case_prod_beta comp_def)
qed

lemma distinct_user_oneloc: "distinct (map fst (user_oneloc tw))"
proof -
  have "map fst (user_oneloc tw)
      = map fst (filter (\<lambda>(u, c). c = 1) (value_counts (map fst (drop_duplicates tw))))"
    unfolding user_oneloc_eq by (simp add: case_prod_beta comp_def)
  also have "\<dots> = filter (\<lambda>u. count_list (map fst (drop_duplicates tw)) u = 1)
      (map fst (value_counts (map fst (drop_duplicates tw))))"
    unfolding filter_map
    by (rule arg_cong [where f = "map fst"], rule filter_cong) (auto simp: value_counts_mem)
  finally show ?thesis by (simp add: distinct_value_counts)
qed

lemma user_oneloc_mem:
  "(u, h) \<in> set (user_oneloc tw) \<longleftrightarrow> (\<exists>l. h = Some l \<and> one_locality tw u l)"
proof -
  let ?P = "drop_duplicates tw"
  have P: "distinct ?P" "set ?P = set tw"
    by (simp_all add: distinct_drop_duplicates set_drop_duplicates)
  have one: "one_locality tw u l \<longleftrightarrow> filter (\<lambda>(k', b). k' = u) ?P = [(u, l)]" for l
    unfolding one_locality_def filter_user_one_locality [OF P(1)] P(2) ..
  show ?thesis
  proof
    assume "(u, h) \<in> set (user_oneloc tw)"
    then have c: "count_list (map fst ?P) u = 1"
      and h: "h = Some (snd (hd (filter (\<lambda>(k', b). k' = u) ?P)))"
      unfolding user_oneloc_eq by (auto simp: value_counts_mem)
    from filter_user_single [OF c] obtain l where l: "filter (\<lambda>(k', b). k' = u) ?P = [(u, l)]" ..
    with h one show "\<exists>l. h = Some l \<and> one_locality tw u l" by auto
  next
    assume "\<exists>l. h = Some l \<and> one_locality tw u l"
    then obtain l where h: "h = Some l" and l: "filter (\<lambda>(k', b). k' = u) ?P = [(u, l)]"
      using one by auto
    from l have c: "count_list (map fst ?P) u = 1"
      by (simp add: count_list_fst case_prod_unfold)
    then have "u \<in> set (map fst ?P)" by (metis count_list_0_iff zero_neq_one)
    with c have "(u, 1) \<in> set (value_counts (map fst ?P))" by (simp add: value_counts_mem)
    then have "(u, 1) \<in> set (filter (\<lambda>(u, c). c = 1) (value_counts (map fst ?P)))" by simp
    then have "(\<lambda>(u, c). (u, Some (snd (hd (filter (\<lambda>(k', b). k' = u) ?P))))) (u, 1::nat)
        \<in> set (user_oneloc tw)"
      unfolding user_oneloc_eq set_map by (rule imageI)
    then show "(u, h) \<in> set (user_oneloc tw)" by (simp add: l h)
  qed
qed

lemma oneloc_home_Some: "oneloc_home tw u = Some l \<longleftrightarrow> one_locality tw u l"
proof -
  have "map_of (user_oneloc tw) u = Some h \<longleftrightarrow> (\<exists>l. h = Some l \<and> one_locality tw u l)" for h
    using user_oneloc_mem [of u h tw] distinct_user_oneloc [of tw] by simp
  then show ?thesis
    unfolding oneloc_home_def by (cases "map_of (user_oneloc tw) u") auto
qed

lemma user_LAD_eq:
  "user_LAD tw = map (\<lambda>(u, c). (u, c, oneloc_home tw u)) (user_LAD_counts tw)"
  unfolding user_LAD_def merge_left_distinct [OF distinct_user_oneloc] oneloc_home_def
  by (simp add: case_prod_beta comp_def)

lemma user_LAD_counts_mem:
  "(u, c) \<in> set (user_LAD_counts tw) \<longleftrightarrow> c = count_list (map fst tw) u \<and> c > 1"
proof -
  have "count_list (map fst tw) u > 1 \<Longrightarrow> u \<in> set (map fst tw)"
    by (metis count_list_0_iff not_less_zero)
  then show ?thesis
    unfolding user_LAD_counts_def by (auto simp: value_counts_mem)
qed

lemma distinct_user_LAD_counts: "distinct (map fst (user_LAD_counts tw))"
proof -
  have "map fst (user_LAD_counts tw)
      = filter (\<lambda>u. count_list (map fst tw) u > 1) (map fst (value_counts (map fst tw)))"
    unfolding user_LAD_counts_def filter_map
    by (rule arg_cong [where f = "map fst"], rule filter_cong) (auto simp: value_counts_mem)
  then show ?thesis by (simp add: distinct_value_counts)
qed

lemma sorted_user_LAD_counts:
  "sorted_wrt (\<lambda>a b. snd b \<le> snd a) (user_LAD_counts tw)"
  unfolding user_LAD_counts_def by (intro sorted_wrt_filter sorted_value_counts)

lemma suffix_split:
  assumes "sorted_wrt (\<lambda>a b. P a \<longrightarrow> P b) xs"
  shows "take (length xs - length (filter P xs)) xs = filter (\<lambda>x. \<not> P x) xs \<and>
         drop (length xs - length (filter P xs)) xs = filter P xs"
  using assms
proof (induction xs)
  case Nil
  show ?case by simp
next
  case (Cons a xs)
  show ?case
  proof (cases "P a")
    case True
    with Cons.prems have "\<forall>x \<in> set xs. P x" by simp
    then have "filter P xs = xs" "filter (\<lambda>x. \<not> P x) xs = []" by (simp_all add: filter_empty_conv)
    with True show ?thesis by simp
  next
    case False
    have le: "length (filter P xs) \<le> length xs" by simp
    from Cons have IH: "take (length xs - length (filter P xs)) xs = filter (\<lambda>x. \<not> P x) xs"
      "drop (length xs - length (filter P xs)) xs = filter P xs" by simp_all
    from le have "length (a # xs) - length (filter P (a # xs)) = Suc (length xs - length (filter P xs))"
      using False by (simp add: Suc_diff_le)
    with False IH show ?thesis by simp
  qed
qed

lemma threshold_loop_eq:
  assumes "n \<le> length tbl"
  shows "threshold_loop cnt n tbl = map (threshold_step cnt) (take n tbl) @ drop n tbl"
  using assms
proof (induction n)
  case 0
  show ?case by (simp add: threshold_loop_def)
next
  case (Suc n)
  let ?f = "\<lambda>i acc. case acc ! i of
                      (u, c, Some h) \<Rightarrow> acc
                    | (u, c, None) \<Rightarrow> acc[i := (u, c, Some (user_localization cnt u))]"
  let ?R = "map (threshold_step cnt) (take n tbl) @ drop n tbl"
  from Suc have n: "n < length tbl" by simp
  from Suc have IH: "threshold_loop cnt n tbl = ?R" by simp
  have len: "length (map (threshold_step cnt) (take n tbl)) = n" using n by simp
  have nth: "?R ! n = tbl ! n"
    using n by (simp add: nth_append)
  have upd: "?R[n := x] = map (threshold_step cnt) (take n tbl) @ x # drop (Suc n) tbl" for x
    using n by (simp add: list_update_append Cons_nth_drop_Suc [symmetric])
  have keep: "?R = map (threshold_step cnt) (take n tbl) @ tbl ! n # drop (Suc n) tbl"
    using n by (simp add: Cons_nth_drop_Suc)
  have step: "?f n ?R = map (threshold_step cnt) (take n tbl) @ threshold_step cnt (tbl ! n) # drop (Suc n) tbl"
  proof (cases "tbl ! n")
    case (fields u c h)
    show ?thesis
    proof (cases h)
      case None
      then show ?thesis
        unfolding nth fields using upd by (simp add: threshold_step_def)
    next
      case (Some l)
      then show ?thesis
        unfolding nth fields using keep fields by (simp add: threshold_step_def)
    qed
  qed
  have "threshold_loop cnt (Suc n) tbl = ?f n (threshold_loop cnt n tbl)"
    by (simp only: threshold_loop_def upt_Suc_append [OF le0] fold_append fold_simps comp_apply id_apply)
  also have "\<dots> = ?f n ?R" by (simp only: IH)
  also note step
  also have "map (threshold_step cnt) (take n tbl) @ threshold_step cnt (tbl ! n) # drop (Suc n) tbl
      = map (threshold_step cnt) (take (Suc n) tbl) @ drop (Suc n) tbl"
    using n by (simp add: take_Suc_conv_app_nth)
  finally show ?case .
qed

lemma two_counts:
  "l \<noteq> X \<Longrightarrow> count_list tw (u, l) + count_list tw (u, X) \<le> count_list (map fst tw) u"
  by (induction tw) auto

lemma count_pair_le: "count_list tw (u, l) \<le> count_list (map fst tw) u"
  by (induction tw) auto

lemma exists_modal:
  assumes "(u, Y) \<in> set tw"
  shows "\<exists>X. (u, X) \<in> set tw \<and> (\<forall>l. count_list tw (u, l) \<le> count_list tw (u, X))"
proof -
  let ?S = "{l. (u, l) \<in> set tw}"
  let ?c = "\<lambda>l. count_list tw (u, l)"
  have "?S \<subseteq> snd ` set tw" by force
  then have fin: "finite ?S" by (rule finite_subset) simp
  from assms have ne: "?S \<noteq> {}" by auto
  from fin ne have "Max (?c ` ?S) \<in> ?c ` ?S" by (intro Max_in) auto
  then obtain X where X: "X \<in> ?S" "?c X = Max (?c ` ?S)" by auto
  have "?c l \<le> ?c X" for l
  proof (cases "l \<in> ?S")
    case True
    then show ?thesis unfolding X(2) using fin by (intro Max_ge) auto
  next
    case False
    then have "?c l = 0" by (simp add: count_list_0_iff)
    then show ?thesis by simp
  qed
  with X(1) show ?thesis by auto
qed

lemma user_localization_modal:
  assumes X: "(u, X) \<in> set tw" and modal: "\<forall>l. count_list tw (u, l) \<le> count_list tw (u, X)"
  shows "user_localization (value_counts tw) u =
           (if count_list (map fst tw) u > 1 \<and>
               real (count_list tw (u, X)) / real (count_list (map fst tw) u) > 0.65
            then X else '''')"
proof -
  let ?Q = "\<lambda>((u', l), c). u' = u"
  let ?temp = "filter ?Q (value_counts tw)"
  let ?n = "count_list (map fst tw) u"
  let ?cX = "count_list tw (u, X)"
  have total: "sum_list (map snd ?temp) = ?n" by (rule sum_value_counts_user)
  have memX: "((u, X), ?cX) \<in> set ?temp" using X by (simp add: value_counts_mem)
  have mem: "r \<in> set ?temp \<Longrightarrow> \<exists>l. r = ((u, l), count_list tw (u, l)) \<and> (u, l) \<in> set tw" for r
    by (cases r) (auto simp: value_counts_mem)
  have mx: "Max (set (map snd ?temp)) = ?cX"
  proof (rule Max_eqI)
    show "finite (set (map snd ?temp))" by simp
    show "y \<le> ?cX" if "y \<in> set (map snd ?temp)" for y
      using that mem modal by fastforce
    show "?cX \<in> set (map snd ?temp)" using memX by force
  qed
  from memX obtain r rest where temp: "?temp = r # rest" by (cases ?temp) auto
  from mem [of r] temp obtain l where r: "r = ((u, l), count_list tw (u, l))" and l: "(u, l) \<in> set tw"
    by auto
  have res: "user_localization (value_counts tw) u =
      (if ?n > 1 \<and> real ?cX / real ?n > 0.65 then l else '''')"
    unfolding user_localization_def Let_def total mx using temp r by simp
  show ?thesis
  proof (cases "?n > 1 \<and> real ?cX / real ?n > 0.65")
    case False
    show ?thesis by (simp only: res if_not_P [OF False])
  next
    case True
    have "sorted_wrt (\<lambda>a b. snd b \<le> snd a) ?temp"
      by (intro sorted_wrt_filter sorted_value_counts)
    then have hd_max: "\<forall>b \<in> set rest. snd b \<le> snd r" unfolding temp by simp
    have "?cX \<le> count_list tw (u, l)"
    proof (cases "((u, X), ?cX) = r")
      case True
      with r show ?thesis by simp
    next
      case False
      with memX temp have "((u, X), ?cX) \<in> set rest" by auto
      with hd_max r show ?thesis by fastforce
    qed
    with modal have eq: "count_list tw (u, l) = ?cX" by (simp add: le_antisym)
    have "l = X"
    proof (rule ccontr)
      assume "l \<noteq> X"
      from two_counts [OF this, of tw u] eq have "2 * ?cX \<le> ?n" by simp
      then have h: "2 * real ?cX \<le> real ?n" by (metis of_nat_le_iff of_nat_mult of_nat_numeral)
      from True have gt: "0.65 < real ?cX / real ?n" and pos: "0 < real ?n" by simp_all
      from gt pos have "13 * real ?n < 20 * real ?cX" by (simp add: field_simps)
      with h pos show False by linarith
    qed
    then show ?thesis by (simp only: res if_P [OF True])
  qed
qed

lemma all_posts_one_locality:
  assumes "(u, X) \<in> set tw" "count_list tw (u, X) = count_list (map fst tw) u"
  shows "one_locality tw u X"
  unfolding one_locality_def
proof (intro conjI allI impI)
  show "(u, X) \<in> set tw" by fact
  fix l assume l: "(u, l) \<in> set tw"
  show "l = X"
  proof (rule ccontr)
    assume "l \<noteq> X"
    from two_counts [OF this, of tw u] assms(2) have "count_list tw (u, l) = 0" by simp
    with l show False by (simp add: count_list_0_iff)
  qed
qed

lemma user_localization_two_posts:
  assumes n: "count_list (map fst tw) u = 2" and none: "oneloc_home tw u = None"
  shows "user_localization (value_counts tw) u = ''''"
proof -
  from n have "u \<in> set (map fst tw)" by (metis count_list_0_iff zero_neq_numeral)
  then obtain Y where "(u, Y) \<in> set tw" by auto
  from exists_modal [OF this] obtain X where X: "(u, X) \<in> set tw"
    and modal: "\<forall>l. count_list tw (u, l) \<le> count_list tw (u, X)" by blast
  have "\<not> real (count_list tw (u, X)) / real (count_list (map fst tw) u) > 0.65"
  proof
    assume "real (count_list tw (u, X)) / real (count_list (map fst tw) u) > 0.65"
    then have "real (count_list tw (u, X)) > 1" unfolding n by simp
    then have "count_list tw (u, X) \<ge> 2" by simp
    with count_pair_le [of tw u X] n have "count_list tw (u, X) = count_list (map fst tw) u" by simp
    from all_posts_one_locality [OF X this] have "oneloc_home tw u = Some X"
      by (simp add: oneloc_home_Some)
    with none show False by simp
  qed
  then show ?thesis unfolding user_localization_modal [OF X modal] by simp
qed

lemma c2_suffix:
  "sorted_wrt (\<lambda>a b. (case a of (u, c, h) \<Rightarrow> c = 2) \<longrightarrow> (case b of (u, c, h) \<Rightarrow> c = (2::nat)))
     (user_LAD tw)"
proof -
  have "sorted_wrt (\<lambda>a b. snd a = 2 \<longrightarrow> snd b = 2) (user_LAD_counts tw)"
  proof (rule sorted_wrt_mono_rel [OF _ sorted_user_LAD_counts])
    fix a b assume "a \<in> set (user_LAD_counts tw)" "b \<in> set (user_LAD_counts tw)" "snd b \<le> snd a"
    moreover have "snd r > 1" if "r \<in> set (user_LAD_counts tw)" for r
    proof -
      obtain u c where "r = (u, c)" by (cases r)
      with that show ?thesis by (simp add: user_LAD_counts_mem)
    qed
    ultimately show "snd a = 2 \<longrightarrow> snd b = 2" by fastforce
  qed
  then show ?thesis
    unfolding user_LAD_eq sorted_wrt_map by (simp add: case_prod_beta)
qed

lemma threshold_step_user_LAD:
  "threshold_step (value_counts tw) (u, c, oneloc_home tw u) = (u, c, assigned tw u)"
  by (simp add: threshold_step_def assigned_def split: option.splits)

lemma user_home_every_user_eq:
  "user_home_every_user tw = map (\<lambda>(u, c). (u, c, assigned tw u)) (user_LAD_counts tw)"
proof -
  have "user_home_every_user tw = map (threshold_step (value_counts tw)) (user_LAD tw)"
    unfolding user_home_every_user_def by (simp add: threshold_loop_eq)
  then show ?thesis
    unfolding user_LAD_eq by (simp add: comp_def case_prod_beta threshold_step_user_LAD)
qed

lemma user_home_eq:
  "user_home tw =
     map (\<lambda>(u, c). (u, c, if c = 2 then oneloc_home tw u else assigned tw u)) (user_LAD_counts tw)"
proof -
  let ?M = "user_LAD tw"
  let ?P = "\<lambda>r. case r of (u, c, h) \<Rightarrow> c = (2::nat)"
  let ?n = "endline ?M"
  let ?G = "\<lambda>r. if ?P r then r else threshold_step (value_counts tw) r"
  have n: "?n = length ?M - length (filter ?P ?M)" by (simp add: endline_def)
  from suffix_split [OF c2_suffix, of tw]
  have tk: "take ?n ?M = filter (\<lambda>r. \<not> ?P r) ?M" and dr: "drop ?n ?M = filter ?P ?M"
    unfolding n by simp_all
  have "?n \<le> length ?M" by (simp add: endline_def)
  then have "user_home tw = map (threshold_step (value_counts tw)) (take ?n ?M) @ drop ?n ?M"
    unfolding user_home_def by (rule threshold_loop_eq)
  also have "map (threshold_step (value_counts tw)) (take ?n ?M) = map ?G (take ?n ?M)"
    unfolding tk by (rule map_cong) auto
  also have "drop ?n ?M = map ?G (drop ?n ?M)"
  proof -
    have "map ?G (drop ?n ?M) = map (\<lambda>r. r) (drop ?n ?M)"
      unfolding dr by (rule map_cong) auto
    then show ?thesis by simp
  qed
  also have "map ?G (take ?n ?M) @ map ?G (drop ?n ?M) = map ?G ?M"
    by (simp add: map_append [symmetric] del: map_append)
  finally have "user_home tw = map ?G ?M" .
  then show ?thesis
    unfolding user_LAD_eq
    by (simp add: comp_def case_prod_beta threshold_step_user_LAD [unfolded prod.case] split: if_splits)
qed

lemma map_of_user_LAD_counts:
  "map_of (user_LAD_counts tw) u =
     (if count_list (map fst tw) u > 1 then Some (count_list (map fst tw) u) else None)"
proof (cases "count_list (map fst tw) u > 1")
  case True
  then have "(u, count_list (map fst tw) u) \<in> set (user_LAD_counts tw)"
    by (simp add: user_LAD_counts_mem)
  with True show ?thesis using distinct_user_LAD_counts [of tw] by simp
next
  case False
  then have "u \<notin> fst ` set (user_LAD_counts tw)" by (auto simp: user_LAD_counts_mem)
  with False show ?thesis by (simp add: map_of_eq_None_iff)
qed

lemma home_of_map:
  "home_of (map (\<lambda>(u, c). (u, c, f u c)) UC) u = map_option (f u) (map_of UC u)"
  unfolding home_of_def by (induction UC) auto

lemma home_of_user_home:
  "home_of (user_home tw) u =
     (if count_list (map fst tw) u > 1
      then Some (if count_list (map fst tw) u = 2 then oneloc_home tw u else assigned tw u)
      else None)"
  unfolding user_home_eq home_of_map [of "\<lambda>u c. if c = 2 then oneloc_home tw u else assigned tw u"]
  by (simp add: map_of_user_LAD_counts)

section \<open>User localization: the claims\<close>

text \<open>
  Claim C1 (as amended). A user all of whose posts of the month have the one locality
  \<open>X\<close>, and who has more than one post, gets the home \<open>X\<close>. A user with a single post
  has no row in the table: \<^verbatim>\<open>user_LAD = user_LAD[user_LAD.counts > 1]\<close> removes the user
  before the one-locality rule is applied.
\<close>

theorem single_locality_home:
  assumes "one_locality tw u X"
  shows "(count_list (map fst tw) u > 1 \<longrightarrow> home_of (user_home tw) u = Some (Some X)) \<and>
         (count_list (map fst tw) u = 1 \<longrightarrow> home_of (user_home tw) u = None)"
proof -
  from assms have "oneloc_home tw u = Some X" by (simp add: oneloc_home_Some)
  then show ?thesis by (simp add: home_of_user_home assigned_def)
qed

lemma ex_posts_set:
  "set ex_posts = {(1, ''Bristol, City of''), (2, ''Dundee City''), (3, ''Hartlepool''),
     (3, ''Dundee City''), (4, ''Hartlepool''), (4, ''Dundee City''), (5, ''Hartlepool''),
     (5, ''Dundee City'')}"
  by (auto simp: ex_posts_def)

text \<open>
  Witness for C1: user 2 of the example month has two posts from one locality, user 1
  has one post.
\<close>

theorem single_locality_home_witness:
  "one_locality ex_posts 2 ''Dundee City'' \<and> count_list (map fst ex_posts) 2 > 1 \<and>
   home_of (user_home ex_posts) 2 = Some (Some ''Dundee City'') \<and>
   one_locality ex_posts 1 ''Bristol, City of'' \<and> count_list (map fst ex_posts) 1 = 1 \<and>
   home_of (user_home ex_posts) 1 = None"
proof -
  have a: "one_locality ex_posts 2 ''Dundee City''"
    unfolding one_locality_def ex_posts_set by simp
  have b: "count_list (map fst ex_posts) 2 = 2" by code_simp
  have c: "one_locality ex_posts 1 ''Bristol, City of''"
    unfolding one_locality_def ex_posts_set by simp
  have d: "count_list (map fst ex_posts) 1 = 1" by code_simp
  from single_locality_home [OF a] b have A: "home_of (user_home ex_posts) 2 = Some (Some ''Dundee City'')"
    by simp
  from single_locality_home [OF c] d have B: "home_of (user_home ex_posts) 1 = None" by blast
  from a b c d A B show ?thesis by simp
qed

text \<open>
  Counterexample to C1 as stated: a month that consists of one post from
  \<open>Bristol, City of\<close> gives an empty table, so the user has no home.
\<close>

theorem single_post_user_dropped_counterexample:
  "one_locality [(1, ''Bristol, City of'')] 1 ''Bristol, City of'' \<and>
   user_home [(1, ''Bristol, City of'')] = [] \<and>
   home_of (user_home [(1, ''Bristol, City of'')]) 1 \<noteq> Some (Some ''Bristol, City of'')"
proof -
  have "user_home [(1, ''Bristol, City of'')] = []" by code_simp
  then show ?thesis by (simp add: one_locality_def home_of_def)
qed


text \<open>
  Claim C2. Let the user \<open>u\<close> have posts from at least two localities, and let \<open>X\<close> be
  a locality with the highest count. If the user's number of posts is greater than 1 and
  the share of \<open>X\<close> exceeds 0.65, the home is \<open>X\<close>. Otherwise no home is assigned: the
  cell is missing (for a user with two posts, whom the loop does not visit) or the empty
  string.
\<close>

theorem modal_locality_home:
  assumes X: "(u, X) \<in> set tw" and Y: "(u, Y) \<in> set tw" and XY: "X \<noteq> Y"
    and modal: "\<forall>l. count_list tw (u, l) \<le> count_list tw (u, X)"
  shows
   "(count_list (map fst tw) u > 1 \<and>
       real (count_list tw (u, X)) / real (count_list (map fst tw) u) > 0.65 \<longrightarrow>
       home_of (user_home tw) u = Some (Some X)) \<and>
    (\<not> (count_list (map fst tw) u > 1 \<and>
       real (count_list tw (u, X)) / real (count_list (map fst tw) u) > 0.65) \<longrightarrow>
       home_of (user_home tw) u = Some None \<or> home_of (user_home tw) u = Some (Some '''')) \<and>
    (X \<noteq> '''' \<longrightarrow>
       (home_of (user_home tw) u = Some (Some X) \<longleftrightarrow>
          count_list (map fst tw) u > 1 \<and>
          real (count_list tw (u, X)) / real (count_list (map fst tw) u) > 0.65))"
proof -
  let ?n = "count_list (map fst tw) u"
  let ?cX = "count_list tw (u, X)"
  let ?cond = "?n > 1 \<and> real ?cX / real ?n > 0.65"
  from X have "?cX \<noteq> 0" by (simp add: count_list_0_iff)
  then have cX: "?cX \<ge> 1" by simp
  from Y have "count_list tw (u, Y) \<noteq> 0" by (simp add: count_list_0_iff)
  then have cY: "count_list tw (u, Y) \<ge> 1" by simp
  from two_counts [of Y X tw u] XY have sum: "count_list tw (u, Y) + ?cX \<le> ?n" by simp
  with cX cY have n: "?n > 1" by simp
  have none: "oneloc_home tw u = None"
  proof (cases "oneloc_home tw u")
    case (Some l)
    then have "one_locality tw u l" by (simp add: oneloc_home_Some)
    with X Y have "X = l" "Y = l" by (auto simp: one_locality_def)
    with XY show ?thesis by simp
  qed simp
  have asg: "assigned tw u = Some (if ?cond then X else '''')"
    unfolding assigned_def none user_localization_modal [OF X modal] by simp
  have home: "home_of (user_home tw) u = Some (if ?n = 2 then None else assigned tw u)"
    using n by (simp add: home_of_user_home none)
  have not2: "?n \<noteq> 2" if c: ?cond
  proof
    assume n2: "?n = 2"
    from c have "real ?cX / 2 > 0.65" unfolding n2 by simp
    then have "real ?cX > 1" by simp
    then have "?cX \<ge> 2" by simp
    with sum cY n2 show False by simp
  qed
  have yes: "home_of (user_home tw) u = Some (Some X)" if c: ?cond
  proof -
    from not2 [OF c] have "home_of (user_home tw) u = Some (assigned tw u)"
      unfolding home by simp
    then show ?thesis unfolding asg by (simp only: if_P [OF c])
  qed
  have no: "home_of (user_home tw) u = Some None \<or> home_of (user_home tw) u = Some (Some '''')"
    if c: "\<not> ?cond"
  proof -
    have "assigned tw u = Some ''''" unfolding asg by (simp only: if_not_P [OF c])
    then show ?thesis unfolding home by simp
  qed
  have iff: "home_of (user_home tw) u = Some (Some X) \<longleftrightarrow> ?cond" if "X \<noteq> ''''"
  proof
    assume h: "home_of (user_home tw) u = Some (Some X)"
    show ?cond
    proof (rule ccontr)
      assume "\<not> ?cond"
      from no [OF this] h that show False by auto
    qed
  next
    assume ?cond
    then show "home_of (user_home tw) u = Some (Some X)" by (rule yes)
  qed
  from yes no iff show ?thesis by blast
qed

lemma count_list_replicate: "count_list (replicate n x) y = (if x = y then n else 0)"
  by (induction n) auto

lemma ex_posts_counts:
  "count_list ex_posts (u, l) =
     (if (u, l) = (1, ''Bristol, City of'') then 1
      else if (u, l) = (2, ''Dundee City'') then 2
      else if (u, l) = (3, ''Hartlepool'') then 1
      else if (u, l) = (3, ''Dundee City'') then 1
      else if (u, l) = (4, ''Hartlepool'') then 7
      else if (u, l) = (4, ''Dundee City'') then 3
      else if (u, l) = (5, ''Hartlepool'') then 6
      else if (u, l) = (5, ''Dundee City'') then 4
      else 0)"
  by (simp add: ex_posts_def count_list_replicate)

text \<open>
  Witness for C2: of ten posts, user 4 has seven from \<open>Hartlepool\<close> (share 0.7) and gets
  this home; user 5 has six (share 0.6) and gets none.
\<close>

theorem modal_locality_home_witness:
  "(4, ''Hartlepool'') \<in> set ex_posts \<and> (4, ''Dundee City'') \<in> set ex_posts \<and>
   count_list (map fst ex_posts) 4 = 10 \<and> count_list ex_posts (4, ''Hartlepool'') = 7 \<and>
   home_of (user_home ex_posts) 4 = Some (Some ''Hartlepool'') \<and>
   (5, ''Hartlepool'') \<in> set ex_posts \<and> (5, ''Dundee City'') \<in> set ex_posts \<and>
   count_list (map fst ex_posts) 5 = 10 \<and> count_list ex_posts (5, ''Hartlepool'') = 6 \<and>
   home_of (user_home ex_posts) 5 = Some (Some '''')"
proof -
  have m4: "(4, ''Hartlepool'') \<in> set ex_posts" "(4, ''Dundee City'') \<in> set ex_posts"
    by (simp_all add: ex_posts_set)
  have m5: "(5, ''Hartlepool'') \<in> set ex_posts" "(5, ''Dundee City'') \<in> set ex_posts"
    by (simp_all add: ex_posts_set)
  have ne: "''Hartlepool'' \<noteq> ''Dundee City''" by simp
  have n4: "count_list (map fst ex_posts) 4 = 10" by code_simp
  have n5: "count_list (map fst ex_posts) 5 = 10" by code_simp
  have c4: "count_list ex_posts (4, ''Hartlepool'') = 7" by (simp add: ex_posts_counts)
  have c5: "count_list ex_posts (5, ''Hartlepool'') = 6" by (simp add: ex_posts_counts)
  have modal4: "\<forall>l. count_list ex_posts (4, l) \<le> count_list ex_posts (4, ''Hartlepool'')"
    by (simp add: ex_posts_counts)
  have modal5: "\<forall>l. count_list ex_posts (5, l) \<le> count_list ex_posts (5, ''Hartlepool'')"
    by (simp add: ex_posts_counts)
  from modal_locality_home [OF m4 ne modal4]
  have A: "home_of (user_home ex_posts) 4 = Some (Some ''Hartlepool'')"
    unfolding n4 c4 by simp
  have "home_of (user_home ex_posts) 5 \<noteq> Some None" by code_simp
  with modal_locality_home [OF m5 ne modal5]
  have B: "home_of (user_home ex_posts) 5 = Some (Some '''')"
    unfolding n5 c5 by simp
  from m4 m5 n4 n5 c4 c5 A B show ?thesis by blast
qed


text \<open>
  Claim C10. The threshold pass over the first \<open>endline\<close> rows and the pass over all
  rows give the same homes: the two tables are equal once they are written and read back,
  which turns the empty string into a missing cell. A user with exactly two posts either
  has a home by the one-locality rule, or gets \<^verbatim>\<open>''\<close> from \<^verbatim>\<open>user_localization\<close> in the
  full pass and keeps the missing cell in the restricted one.
\<close>

theorem endline_pass_same_homes: "read_back (user_home tw) = read_back (user_home_every_user tw)"
proof -
  let ?norm = "\<lambda>h. if h = Some '''' then None else h"
  have "?norm (if c = 2 then oneloc_home tw u else assigned tw u) = ?norm (assigned tw u)"
    if "(u, c) \<in> set (user_LAD_counts tw)" for u c
  proof (cases "c = 2")
    case False
    then show ?thesis by simp
  next
    case True
    from that have c: "c = count_list (map fst tw) u" by (simp add: user_LAD_counts_mem)
    show ?thesis
    proof (cases "oneloc_home tw u")
      case None
      with user_localization_two_posts [of tw u] c True
      have "assigned tw u = Some ''''" by (simp add: assigned_def)
      with None True show ?thesis by simp
    next
      case (Some l)
      then have "assigned tw u = Some l" by (simp add: assigned_def)
      with Some True show ?thesis by simp
    qed
  qed
  then have "map (\<lambda>(u, c). (u, c, ?norm (if c = 2 then oneloc_home tw u else assigned tw u)))
        (user_LAD_counts tw)
      = map (\<lambda>(u, c). (u, c, ?norm (assigned tw u))) (user_LAD_counts tw)"
    by (intro map_cong) auto
  then show ?thesis
    unfolding user_home_eq user_home_every_user_eq read_back_def
    by (simp add: case_prod_beta comp_def)
qed
text \<open>The two passes on the example month.\<close>

theorem endline_pass_same_homes_witness:
  "read_back (user_home_every_user ex_posts) =
     [(4, 10, Some ''Hartlepool''), (5, 10, None), (2, 2, Some ''Dundee City''), (3, 2, None)]"
proof -
  have "read_back (user_home ex_posts) =
     [(4, 10, Some ''Hartlepool''), (5, 10, None), (2, 2, Some ''Dundee City''), (3, 2, None)]"
    by code_simp
  with endline_pass_same_homes [of ex_posts] show ?thesis by simp
qed


section \<open>Migration flows\<close>

text \<open>The user-home table of a month has one row for each user.\<close>

lemma distinct_user_home: "distinct (map fst (read_back (user_home tw)))"
proof -
  have "map fst (read_back (user_home tw)) = map fst (user_LAD_counts tw)"
    unfolding user_home_eq read_back_def by (simp add: case_prod_beta comp_def)
  then show ?thesis by (simp add: distinct_user_LAD_counts)
qed

lemma find_key_map:
  assumes "\<And>k. P (f k) \<longleftrightarrow> k = k0"
  shows "List.find P (map f ks) = (if k0 \<in> set ks then Some (f k0) else None)"
  using assms by (induction ks) auto

lemma flow_of_migration:
  "flow_of (migration y1 m1 y2 m2 df1 df2) org dst
     = length (filter (\<lambda>(u, x, y). (x, y) = (org, dst)) (migration_df df1 df2))"
proof -
  let ?mig = "migration_df df1 df2"
  let ?f = "\<lambda>(a, b).
             (a, b, length (filter (\<lambda>(u, x, y). (x, y) = (a, b)) ?mig),
              month_label y1 m1, month_label y2 m2)"
  let ?P = "\<lambda>(x, y, f, ms, me). x = org \<and> y = dst"
  have "?P (?f k) \<longleftrightarrow> k = (org, dst)" for k by (cases k) auto
  from find_key_map [of ?P ?f "(org, dst)", OF this]
  have find: "List.find ?P (map ?f (sort (remdups (map snd ?mig))))
      = (if (org, dst) \<in> set (map snd ?mig) then Some (?f (org, dst)) else None)"
    by simp
  show ?thesis
  proof (cases "(org, dst) \<in> set (map snd ?mig)")
    case True
    with find show ?thesis unfolding flow_of_def migration_def Let_def by simp
  next
    case False
    then have "filter (\<lambda>(u, x, y). (x, y) = (org, dst)) ?mig = []"
      by (force simp: filter_empty_conv)
    with False find show ?thesis unfolding flow_of_def migration_def Let_def by simp
  qed
qed

lemma length_filter_concat_single:
  assumes "\<And>r. r \<in> set rows \<Longrightarrow> length (g r) \<le> 1"
  shows "length (filter Q (concat (map g rows)))
           = length (filter (\<lambda>r. \<exists>x. g r = [x] \<and> Q x) rows)"
  using assms
proof (induction rows)
  case Nil
  show ?case by simp
next
  case (Cons r rows)
  from Cons.prems [of r] have "g r = [] \<or> (\<exists>x. g r = [x])"
    by (cases "g r") (auto simp: length_Suc_conv)
  with Cons show ?case by auto
qed

text \<open>
  Claim C5. For two user-home tables with one row for each user, the flow from \<open>org\<close>
  to \<open>dst\<close> is the number of users whose home is \<open>org\<close> in the first month and \<open>dst\<close>
  in the second, with \<open>org \<noteq> dst\<close>: such a user adds exactly one to this flow and
  nothing to any other; a user with the same home in both months, or without a home in
  one of them, adds nothing to any flow.
\<close>

theorem flow_counts_users_who_moved:
  assumes d1: "distinct (map fst df1)" and d2: "distinct (map fst df2)"
  shows "flow_of (migration y1 m1 y2 m2 df1 df2) org dst =
           card {u. \<exists>c1 c2. (u, c1, Some org) \<in> set df1 \<and> (u, c2, Some dst) \<in> set df2 \<and> org \<noteq> dst}"
proof -
  let ?g = "\<lambda>(u :: int, (c1 :: nat, h1), r :: (nat \<times> string option) option).
        case (h1, r) of
          (Some home_x, Some (c2, Some home_y)) \<Rightarrow>
             if home_x \<noteq> home_y then [(u, home_x, home_y)] else []
        | _ \<Rightarrow> []"
  let ?Q = "\<lambda>(u :: int, x, y). (x, y) = (org, dst)"
  let ?sel = "\<lambda>(u, c1, h1). h1 = Some org \<and> org \<noteq> dst \<and> (\<exists>c2. (u, c2, Some dst) \<in> set df2)"
  have merge: "merge_left df1 df2 = map (\<lambda>(k, a). (k, a, map_of df2 k)) df1"
    by (rule merge_left_distinct [OF d2])
  have mo: "map_of df2 u = Some (c, h) \<longleftrightarrow> (u, c, h) \<in> set df2" for u c h
    using d2 by simp
  have len: "length (?g r) \<le> 1" for r
    by (auto split: prod.splits option.splits)
  have key: "(\<exists>x. ?g (u, (c1, h1), map_of df2 u) = [x] \<and> ?Q x) \<longleftrightarrow> ?sel (u, c1, h1)" for u c1 h1
  proof
    assume "\<exists>x. ?g (u, (c1, h1), map_of df2 u) = [x] \<and> ?Q x"
    then obtain x where gx: "?g (u, (c1, h1), map_of df2 u) = [x]" and q: "?Q x" by blast
    from gx obtain hx c2 hy where "h1 = Some hx" "map_of df2 u = Some (c2, Some hy)" "hx \<noteq> hy"
        "x = (u, hx, hy)"
      by (auto split: option.splits if_splits)
    with q mo [of u c2 "Some hy"] show "?sel (u, c1, h1)" by auto
  next
    assume "?sel (u, c1, h1)"
    then obtain c2 where s: "h1 = Some org" "org \<noteq> dst" "(u, c2, Some dst) \<in> set df2" by auto
    with mo [of u c2 "Some dst"] have "map_of df2 u = Some (c2, Some dst)" by simp
    with s show "\<exists>x. ?g (u, (c1, h1), map_of df2 u) = [x] \<and> ?Q x" by simp
  qed
  have "flow_of (migration y1 m1 y2 m2 df1 df2) org dst
      = length (filter ?Q (concat (map ?g (merge_left df1 df2))))"
    unfolding flow_of_migration migration_df_def ..
  also have "\<dots> = length (filter (\<lambda>r. \<exists>x. ?g r = [x] \<and> ?Q x) (merge_left df1 df2))"
    by (rule length_filter_concat_single) (rule len)
  also have "\<dots> = length (filter ?sel df1)"
  proof -
    have "filter ((\<lambda>r. \<exists>x. ?g r = [x] \<and> ?Q x) \<circ> (\<lambda>(k, a). (k, a, map_of df2 k))) df1
        = filter ?sel df1"
    proof (rule filter_cong [OF refl])
      fix row assume "row \<in> set df1"
      obtain u c1 h1 where row: "row = (u, c1, h1)" by (cases row)
      show "((\<lambda>r. \<exists>x. ?g r = [x] \<and> ?Q x) \<circ> (\<lambda>(k, a). (k, a, map_of df2 k))) row = ?sel row"
        using key [of u c1 h1] unfolding row by (simp add: comp_def)
    qed
    then show ?thesis unfolding merge filter_map by simp
  qed
  also have "\<dots> = card (set (filter ?sel df1))"
  proof (rule distinct_card [symmetric])
    from d1 have "distinct df1" by (simp add: distinct_map)
    then show "distinct (filter ?sel df1)" by simp
  qed
  also have "\<dots> = card (fst ` set (filter ?sel df1))"
  proof (rule card_image [symmetric])
    have "inj_on fst (set df1)" using d1 by (simp add: distinct_map)
    then show "inj_on fst (set (filter ?sel df1))"
      by (rule inj_on_subset) auto
  qed
  also have "fst ` set (filter ?sel df1)
      = {u. \<exists>c1 c2. (u, c1, Some org) \<in> set df1 \<and> (u, c2, Some dst) \<in> set df2 \<and> org \<noteq> dst}"
    by force
  finally show ?thesis .
qed

text \<open>
  Witness for C5: user 1 moves from \<open>Bristol, City of\<close> to \<open>Dundee City\<close>, user 2
  stays in \<open>Hartlepool\<close>, users 3 and 4 lack a home in one month, user 5 is absent from
  the second month.
\<close>

theorem flow_counts_users_who_moved_witness:
  "distinct (map fst ex_month_A) \<and> distinct (map fst ex_month_B) \<and>
   flow_of (migration 2019 6 2020 6 ex_month_A ex_month_B) ''Bristol, City of'' ''Dundee City'' = 1 \<and>
   card {u. \<exists>c1 c2. (u, c1, Some ''Bristol, City of'') \<in> set ex_month_A \<and>
            (u, c2, Some ''Dundee City'') \<in> set ex_month_B \<and>
            ''Bristol, City of'' \<noteq> ''Dundee City''} = 1 \<and>
   flow_of (migration 2019 6 2020 6 ex_month_A ex_month_B) ''Hartlepool'' ''Hartlepool'' = 0"
proof -
  have d1: "distinct (map fst ex_month_A)" by (simp add: ex_month_A_def)
  have d2: "distinct (map fst ex_month_B)" by (simp add: ex_month_B_def)
  have f: "flow_of (migration 2019 6 2020 6 ex_month_A ex_month_B) ''Bristol, City of'' ''Dundee City'' = 1"
    by code_simp
  from flow_counts_users_who_moved [OF d1 d2, of 2019 6 2020 6 "''Bristol, City of''" "''Dundee City''"] f
  have c: "card {u. \<exists>c1 c2. (u, c1, Some ''Bristol, City of'') \<in> set ex_month_A \<and>
            (u, c2, Some ''Dundee City'') \<in> set ex_month_B \<and>
            ''Bristol, City of'' \<noteq> ''Dundee City''} = 1"
    by simp
  from flow_counts_users_who_moved [OF d1 d2, of 2019 6 2020 6 "''Hartlepool''" "''Hartlepool''"]
  have z: "flow_of (migration 2019 6 2020 6 ex_month_A ex_month_B) ''Hartlepool'' ''Hartlepool'' = 0"
    by simp
  from d1 d2 f c z show ?thesis by blast
qed

end
